theory Spec2Isabelle
  imports Main "HOL-Library.Word"
begin

unbundle bit_operations_syntax

section \<open>The packed sequence \<open>Seq\<close> of \<open>sequence/seq.hpp\<close>\<close>

text \<open>
  The class template \<open>Seq\<close> stores a fixed number of nucleotides, two bits each, in
  a \<open>std::array<T, DataSize>\<close>. The storage type \<open>T\<close> is the word type \<open>'a word\<close>; a
  C++ integer type has \<open>sizeof(T)\<close> bytes, so the theorems assume that the width is
  one of 8, 16, 32, 64 (predicate \<open>cxx_word\<close>). The template argument for the size is
  the explicit argument \<open>sz\<close> of every operation, the member array is the list of words
  \<open>dat\<close>, and a C++ \<open>char\<close> is a \<open>char\<close>. Expressions of a type narrower than \<open>int\<close>
  are promoted before a shift and cut to \<open>T\<close> when stored, which gives the value the
  word operations give. Indices are \<open>size_t\<close>; they stay far below \<open>2^64\<close> and are
  natural numbers here. An array that a constructor does not initialise holds
  indeterminate values: they are the argument \<open>mem\<close>.
\<close>

subsection \<open>Compile-time constants\<close>

definition sizeof_T :: "'a::len itself \<Rightarrow> nat" where
  "sizeof_T T = LENGTH('a) div 8"

definition cxx_word :: "'a::len itself \<Rightarrow> bool" where
  "cxx_word T \<longleftrightarrow> LENGTH('a) \<in> {8, 16, 32, 64}"

text \<open>
  Modelled from the spec: the template \<open>log_<N, base>::value\<close> (here \<open>log_value\<close>),
  which is not among the sources. The spec places symbol \<open>i\<close> in cell
  \<open>i / symbols-per-word\<close>, and \<open>seq.hpp\<close> uses \<open>TNuclBits\<close> for shifts instead of
  divisions by \<open>TNucl\<close>, a power of two: it is the integer logarithm.
\<close>

function log_value :: "nat \<Rightarrow> nat \<Rightarrow> nat" where
  "log_value n b = (if n \<le> 1 \<or> b \<le> 1 then 0 else 1 + log_value (n div b) b)"
  by pat_completeness auto
termination
  by (relation "measure (\<lambda>(n, b). n)") auto

declare log_value.simps [simp del]

definition TBits :: "'a::len itself \<Rightarrow> nat" where
  "TBits T = push_bit 3 (sizeof_T T)"

definition TNucl :: "'a::len itself \<Rightarrow> nat" where
  "TNucl T = drop_bit 1 (TBits T)"

definition TNuclBits :: "'a::len itself \<Rightarrow> nat" where
  "TNuclBits T = log_value (TNucl T) 2"

definition DataSize :: "'a::len itself \<Rightarrow> nat \<Rightarrow> nat" where
  "DataSize T sz = drop_bit (TNuclBits T) (sz + TNucl T - 1)"

definition PrimeNum :: "64 word" where
  "PrimeNum = 239"

definition NuclsRemain :: "'a::len itself \<Rightarrow> nat \<Rightarrow> nat" where
  "NuclsRemain T sz = sz AND (TNucl T - 1)"

definition MaskForLastBucket :: "'a::len itself \<Rightarrow> nat \<Rightarrow> 'a word" where
  "MaskForLastBucket T sz = push_bit (push_bit 1 (NuclsRemain T sz)) 1 - 1"

subsection \<open>The symbol codec\<close>

text \<open>
  Modelled from the spec: the functions \<open>is_nucl\<close>, \<open>is_dignucl\<close>, \<open>dignucl\<close>, \<open>nucl\<close> and
  \<open>complement\<close> of \<open>sequence/nucl.hpp\<close>, which is not among the sources. The spec gives
  the codes A=0, C=1, G=2, T=3, the complement map A\<leftrightarrow>T, C\<leftrightarrow>G, and a validity
  predicate for the letters and for the raw codes 0..3. It says nothing about other
  characters: \<open>seq.hpp\<close> calls \<open>dignucl\<close> with its own validity check commented out
  (for performance), so \<open>dignucl\<close> is a plain lookup here, with code 0 for every other
  character, and the theorems below are about valid symbols only.
\<close>

definition is_nucl :: "char \<Rightarrow> bool" where
  "is_nucl c \<longleftrightarrow> c = CHR ''A'' \<or> c = CHR ''C'' \<or> c = CHR ''G'' \<or> c = CHR ''T''"

definition is_dignucl :: "char \<Rightarrow> bool" where
  "is_dignucl c \<longleftrightarrow> (of_char c :: nat) < 4"

definition dignucl :: "char \<Rightarrow> char" where
  "dignucl c =
     (if c = CHR ''A'' then CHR 0x00
      else if c = CHR ''C'' then CHR 0x01
      else if c = CHR ''G'' then CHR 0x02
      else if c = CHR ''T'' then CHR 0x03
      else CHR 0x00)"

definition nucl :: "char \<Rightarrow> char" where
  "nucl c =
     (if c = CHR 0x00 then CHR ''A''
      else if c = CHR 0x01 then CHR ''C''
      else if c = CHR 0x02 then CHR ''G''
      else if c = CHR 0x03 then CHR ''T''
      else CHR ''A'')"

definition complement :: "char \<Rightarrow> char" where
  "complement c = char_of (3 - (of_char c :: nat))"

subsection \<open>Symbol access\<close>

text \<open>
  \<open>(T) c\<close> for a character \<open>c\<close>. On the hosts the code is built for (x86, gcc) \<open>char\<close>
  is signed, so a character from 128 on is negative and its conversion to the
  unsigned \<open>T\<close> wraps around: the value is \<open>c - 256\<close> modulo \<open>2 ^ TBits\<close>, the sign
  extension of \<open>c\<close>. The letters and the codes 0..3 are below 128.
\<close>

definition T_of_char :: "char \<Rightarrow> 'a::len word" where
  "T_of_char c =
     (if (of_char c :: nat) < 128 then of_nat (of_char c) else of_nat (of_char c) - 256)"

text \<open>The conversion of a storage word to \<open>char\<close>: the low eight bits.\<close>

definition char_of_T :: "'a::len word \<Rightarrow> char" where
  "char_of_T w = char_of (unat w)"

text \<open>\<open>operator[]\<close>: no bounds check in the source; the index is in range in every use below.\<close>

definition at :: "'a::len word list \<Rightarrow> nat \<Rightarrow> char" where
  "at dat i =
     char_of_T (drop_bit (push_bit 1 (i AND (TNucl TYPE('a) - 1)))
                  (dat ! drop_bit (TNuclBits TYPE('a)) i) AND 3)"

text \<open>\<open>set\<close>: writes the character \<open>c\<close> at position \<open>i\<close>.\<close>

definition set_at :: "'a::len word list \<Rightarrow> nat \<Rightarrow> char \<Rightarrow> 'a word list" where
  "set_at dat i c =
     (let k = drop_bit (TNuclBits TYPE('a)) i;
          sh = push_bit 1 (i AND (TNucl TYPE('a) - 1))
      in dat[k := (dat ! k AND NOT (push_bit sh 3)) OR push_bit sh (T_of_char c)])"

subsection \<open>Hashing and equality\<close>

text \<open>
  The bytes of a storage word in memory. The layout is the host's; the little-endian
  one is taken here, and nothing below depends on the order.
\<close>

definition word_bytes :: "'a::len word \<Rightarrow> 8 word list" where
  "word_bytes w = map (\<lambda>k. ucast (drop_bit (8 * k) w)) [0..<sizeof_T TYPE('a)]"

definition raw_bytes :: "'a::len word list \<Rightarrow> 8 word list" where
  "raw_bytes dat = concat (map word_bytes dat)"

text \<open>\<open>memcmp\<close> of the C library on the first \<open>n\<close> bytes: negative, zero or positive.\<close>

fun memcmp :: "8 word list \<Rightarrow> 8 word list \<Rightarrow> nat \<Rightarrow> int" where
  "memcmp (x # xs) (y # ys) (Suc n) =
     (if x < y then - 1 else if y < x then 1 else memcmp xs ys n)"
| "memcmp _ _ _ = 0"

definition seq_eq :: "nat \<Rightarrow> 'a::len word list \<Rightarrow> 'a word list \<Rightarrow> bool" where
  "seq_eq sz d s \<longleftrightarrow>
     0 = memcmp (raw_bytes d) (raw_bytes s) (sizeof_T TYPE('a) * DataSize TYPE('a) sz)"

definition seq_neq :: "nat \<Rightarrow> 'a::len word list \<Rightarrow> 'a word list \<Rightarrow> bool" where
  "seq_neq sz d s \<longleftrightarrow>
     0 \<noteq> memcmp (raw_bytes d) (raw_bytes s) (sizeof_T TYPE('a) * DataSize TYPE('a) sz)"

text \<open>\<open>struct equal_to\<close>.\<close>

definition equal_to :: "nat \<Rightarrow> 'a::len word list \<Rightarrow> 'a word list \<Rightarrow> bool" where
  "equal_to sz l r \<longleftrightarrow>
     memcmp (raw_bytes l) (raw_bytes r) (sizeof_T TYPE('a) * DataSize TYPE('a) sz) = 0"

text \<open>\<open>GetHash\<close>: \<open>size_t\<close> arithmetic wraps at 64 bits.\<close>

definition GetHash :: "nat \<Rightarrow> 'a::len word list \<Rightarrow> 64 word" where
  "GetHash sz dat =
     foldl (\<lambda>hash i. (push_bit 5 hash - hash) + ucast (dat ! i)) PrimeNum
       [0..<DataSize TYPE('a) sz]"

text \<open>\<open>struct hash\<close>.\<close>

definition hash_functor :: "nat \<Rightarrow> 'a::len word list \<Rightarrow> 64 word" where
  "hash_functor sz seq =
     foldl (\<lambda>hash i. (push_bit 5 hash - hash) + ucast (seq ! i)) PrimeNum
       [0..<DataSize TYPE('a) sz]"

subsection \<open>Constructors\<close>

datatype error = AssertionFailed | OutOfBounds

text \<open>The default constructor: \<open>std::fill\<close> with 0.\<close>

definition Seq_default :: "nat \<Rightarrow> 'a::len word list" where
  "Seq_default sz = replicate (DataSize TYPE('a) sz) 0"

text \<open>\<open>SetZero\<close> fills the array with \<open>-1\<close>; \<open>GetZero\<close> applies it to a default sequence.\<close>

definition SetZero :: "'a::len word list \<Rightarrow> 'a word list" where
  "SetZero dat = map (\<lambda>_. - 1) dat"

definition GetZero :: "nat \<Rightarrow> 'a::len word list" where
  "GetZero sz = SetZero (Seq_default sz)"

text \<open>
  The packing loop of \<open>init\<close>, which the generic constructor repeats: the state is
  \<open>(data, cnt, cur, dat)\<close>, and \<open>sym_of i\<close> is the code of the \<open>i\<close>-th symbol read.
\<close>

definition pack_step ::
  "(nat \<Rightarrow> char) \<Rightarrow> 'a::len word \<times> nat \<times> nat \<times> 'a word list \<Rightarrow> nat
     \<Rightarrow> 'a word \<times> nat \<times> nat \<times> 'a word list" where
  "pack_step sym_of st i =
     (case st of (data, cnt, cur, dat) \<Rightarrow>
        let data = data OR push_bit cnt (T_of_char (sym_of i));
            cnt = cnt + 2
        in if cnt = TBits TYPE('a) then (0, 0, cur + 1, dat[cur := data])
           else (data, cnt, cur, dat))"

definition pack_flush ::
  "'a::len word \<times> nat \<times> nat \<times> 'a word list \<Rightarrow> nat \<times> 'a word list" where
  "pack_flush st =
     (case st of (data, cnt, cur, dat) \<Rightarrow>
        if cnt \<noteq> 0 then (cur + 1, dat[cur := data]) else (cur, dat))"

text \<open>
  \<open>init\<close>, that is \<open>Seq(const char* s)\<close>. The argument \<open>s\<close> holds the bytes of the buffer
  from the pointer on, the terminator and what follows it included. The loop reads
  \<open>sz\<close> characters whatever they are and the assertion reads one more; a shorter
  buffer is read out of bounds.
\<close>

definition init :: "nat \<Rightarrow> 'a::len word list \<Rightarrow> string \<Rightarrow> error + 'a word list" where
  "init sz mem s =
     (if length s \<le> sz then Inl OutOfBounds
      else
        let st = foldl (pack_step (\<lambda>pos. dignucl (s ! pos))) (0, 0, 0, mem) [0..<sz];
            dat = snd (pack_flush st)
        in if s ! sz = CHR 0x00 then Inr dat else Inl AssertionFailed)"

text \<open>
  \<open>Seq(T* data_array)\<close>. With \<open>DataSize = 0\<close> the bound \<open>DataSize - 1\<close> of the loop wraps
  around and the loop leaves both arrays.
\<close>

definition Seq_of_array ::
  "nat \<Rightarrow> 'a::len word list \<Rightarrow> 'a word list \<Rightarrow> error + 'a word list" where
  "Seq_of_array sz mem data_array =
     (let n = DataSize TYPE('a) sz in
      if n = 0 then Inl OutOfBounds
      else if length data_array < (if NuclsRemain TYPE('a) sz \<noteq> 0 then n else n - 1)
        then Inl OutOfBounds
      else
        let dat = foldl (\<lambda>dat i. dat[i := data_array ! i]) mem [0..<n - 1]
        in if NuclsRemain TYPE('a) sz \<noteq> 0
           then Inr (dat[n - 1 := data_array ! (n - 1) AND MaskForLastBucket TYPE('a) sz])
           else Inr dat)"

text \<open>
  The generic constructor \<open>Seq(const S &s, size_t offset, size_t number_to_read)\<close>. The
  source is any object with \<open>operator[]\<close>: here a function from the index to the
  character read, \<open>None\<close> where the access is undefined. It is read at \<open>0\<close> and at
  \<open>offset + i\<close>; more than \<open>DataSize * TNucl\<close> symbols are written past the array.
\<close>

type_synonym source = "nat \<Rightarrow> char option"

definition Seq_of_source ::
  "nat \<Rightarrow> 'a::len word list \<Rightarrow> source \<Rightarrow> nat \<Rightarrow> nat \<Rightarrow> error + 'a word list" where
  "Seq_of_source sz mem s offset number_to_read =
     (case s 0 of
        None \<Rightarrow> Inl OutOfBounds
      | Some s0 \<Rightarrow>
          if \<not> (is_dignucl s0 \<or> is_nucl s0) then Inl AssertionFailed
          else if list_ex (\<lambda>i. s (offset + i) = None) [0..<number_to_read]
            then Inl OutOfBounds
          else if DataSize TYPE('a) sz * TNucl TYPE('a) < number_to_read then Inl OutOfBounds
          else
            let digit_str = is_dignucl s0;
                st = foldl
                       (pack_step (\<lambda>i. if digit_str then the (s (offset + i))
                                         else dignucl (the (s (offset + i)))))
                       (0, 0, 0, mem) [0..<number_to_read];
                (cur, dat) = pack_flush st
            in Inr (foldl (\<lambda>dat cur. dat[cur := 0]) dat [cur..<DataSize TYPE('a) sz]))"

text \<open>
  The sources the class uses. A \<open>std::string\<close> can be read up to its size, where it
  gives the terminator. A sequence (in \<open>start\<close> and \<open>end\<close>) is read with \<open>operator[]\<close>,
  which stays inside its array for the positions of its cells.
\<close>

definition string_source :: "string \<Rightarrow> source" where
  "string_source str i =
     (if i < length str then Some (str ! i)
      else if i = length str then Some (CHR 0x00) else None)"

definition seq_source :: "'a::len word list \<Rightarrow> source" where
  "seq_source dat i =
     (if drop_bit (TNuclBits TYPE('a)) i < length dat then Some (at dat i) else None)"

subsection \<open>Reverse complement and shifts\<close>

text \<open>
  \<open>operator!\<close>. The complemented codes pass through a variable of type \<open>T\<close> on their way
  to \<open>set\<close>.
\<close>

definition rc_step :: "nat \<Rightarrow> 'a::len word list \<Rightarrow> nat \<Rightarrow> 'a word list" where
  "rc_step sz res i =
     (let front = (T_of_char (complement (at res i)) :: 'a word);
          end = (T_of_char (complement (at res (sz - 1 - i))) :: 'a word);
          res = set_at res i (char_of_T end)
      in set_at res (sz - 1 - i) (char_of_T front))"

definition op_not :: "nat \<Rightarrow> 'a::len word list \<Rightarrow> 'a word list" where
  "op_not sz dat =
     (let res = foldl (rc_step sz) dat [0..<drop_bit 1 sz]
      in if sz AND 1 = 1
         then set_at res (drop_bit 1 sz) (complement (at res (drop_bit 1 sz)))
         else res)"

text \<open>
  \<open>operator<<\<close>. The loop runs from \<open>DataSize - 2\<close> down to 0. The shift
  \<open>lastnuclshift_\<close> is below \<open>TBits\<close> and fits the type \<open>T\<close> it is stored in.
\<close>

definition shl_step ::
  "'a::len word list \<times> 'a word \<Rightarrow> nat \<Rightarrow> 'a word list \<times> 'a word" where
  "shl_step st i =
     (case st of (dat, rm) \<Rightarrow>
        let new_rm = dat ! i AND 3
        in (dat[i := drop_bit 2 (dat ! i) OR push_bit (TBits TYPE('a) - 2) rm], new_rm))"

definition op_shl :: "nat \<Rightarrow> 'a::len word list \<Rightarrow> char \<Rightarrow> 'a word list" where
  "op_shl sz dat c0 =
     (let c = (if is_nucl c0 then dignucl c0 else c0);
          n = DataSize TYPE('a) sz
      in if n \<noteq> 0 then
           let rm = dat ! (n - 1) AND 3;
               lastnuclshift = push_bit 1 ((sz + TNucl TYPE('a) - 1) AND (TNucl TYPE('a) - 1));
               dat = dat[n - 1 := drop_bit 2 (dat ! (n - 1)) OR push_bit lastnuclshift (T_of_char c)]
           in if n \<ge> 2 then fst (foldl shl_step (dat, rm) (rev [0..<n - 1])) else dat
         else dat)"

text \<open>\<open>operator>>\<close>, with its assertion on the symbol.\<close>

definition shr_step ::
  "'a::len word list \<times> 'a word \<Rightarrow> nat \<Rightarrow> 'a word list \<times> 'a word" where
  "shr_step st i =
     (case st of (res, rm) \<Rightarrow>
        let new_rm = drop_bit (TBits TYPE('a) - 2) (res ! i) AND 3
        in (res[i := push_bit 2 (res ! i) OR rm], new_rm))"

definition op_shr :: "nat \<Rightarrow> 'a::len word list \<Rightarrow> char \<Rightarrow> error + 'a word list" where
  "op_shr sz dat c0 =
     (let c = (if is_nucl c0 then dignucl c0 else c0);
          n = DataSize TYPE('a) sz
      in if \<not> is_dignucl c then Inl AssertionFailed
         else
           let res = fst (foldl shr_step (dat, T_of_char c) [0..<n])
           in if sz AND (TNucl TYPE('a) - 1) \<noteq> 0 then
                let lastnuclshift = push_bit 1 (sz AND (TNucl TYPE('a) - 1))
                in Inr (res[n - 1 := res ! (n - 1) AND (push_bit lastnuclshift 1 - 1)])
              else Inr res)"

subsection \<open>String conversion\<close>

definition str :: "nat \<Rightarrow> 'a::len word list \<Rightarrow> string" where
  "str sz dat = map (\<lambda>i. nucl (at dat i)) [0..<sz]"

subsection \<open>Binary serialisation\<close>

text \<open>
  The streams are those of the C++ library. An input stream is the bytes it can still
  deliver and a flag that it is not \<open>good()\<close>; \<open>read(p, n)\<close> does nothing but set
  \<open>failbit\<close> when the stream is not good, stores \<open>n\<close> bytes when it has them, and
  otherwise stores what is left and sets \<open>eofbit\<close> and \<open>failbit\<close>, so that after a
  \<open>read\<close> the stream is not good exactly when \<open>fail()\<close> holds. An output stream is
  the bytes sent so far, the number of bytes its sink still accepts and the flag that
  \<open>fail()\<close> reads; \<open>write\<close> does nothing on a failed stream and fails when the sink
  is full.
\<close>

record istream =
  avail :: "8 word list"
  not_good :: bool

record ostream =
  sent :: "8 word list"
  room :: nat
  ofail :: bool

definition istream_read :: "istream \<Rightarrow> nat \<Rightarrow> 8 word list \<times> istream" where
  "istream_read file n =
     (if not_good file then ([], file)
      else if n \<le> length (avail file)
        then (take n (avail file), file\<lparr>avail := drop n (avail file)\<rparr>)
      else (avail file, file\<lparr>avail := [], not_good := True\<rparr>))"

definition ostream_write :: "ostream \<Rightarrow> 8 word list \<Rightarrow> ostream" where
  "ostream_write file bs =
     (if ofail file then file
      else if length bs \<le> room file
        then file\<lparr>sent := sent file @ bs, room := room file - length bs\<rparr>
      else file\<lparr>sent := sent file @ take (room file) bs, room := 0, ofail := True\<rparr>)"

text \<open>A storage word from its bytes, and the array from the bytes of its memory.\<close>

definition word_of_bytes :: "8 word list \<Rightarrow> 'a::len word" where
  "word_of_bytes bs = foldr (\<lambda>b w. ucast b OR push_bit 8 w) bs 0"

fun unraw :: "nat \<Rightarrow> 8 word list \<Rightarrow> 'a::len word list" where
  "unraw 0 bs = []"
| "unraw (Suc n) bs =
     word_of_bytes (take (sizeof_T TYPE('a)) bs) # unraw n (drop (sizeof_T TYPE('a)) bs)"

text \<open>
  \<open>BinRead\<close>: the bytes read overwrite the memory of the array from its start; the
  result is \<open>!file.fail()\<close>, the stream and the array. The source declares the
  sequence argument of \<open>BinRead\<close> and \<open>BinWrite\<close> as \<open>Seq<size_>\<close>, the sequence of the
  default word type \<open>u_int64_t\<close>; the model keeps the word type general.
\<close>

definition BinRead ::
  "nat \<Rightarrow> istream \<Rightarrow> 'a::len word list \<Rightarrow> bool \<times> istream \<times> 'a word list" where
  "BinRead sz file dat =
     (let (bs, file') = istream_read file (sizeof_T TYPE('a) * DataSize TYPE('a) sz)
      in (\<not> not_good file', file',
          unraw (DataSize TYPE('a) sz) (bs @ drop (length bs) (raw_bytes dat))))"

text \<open>\<open>BinWrite\<close>: the result is \<open>!file.fail()\<close> and the stream.\<close>

definition BinWrite :: "nat \<Rightarrow> ostream \<Rightarrow> 'a::len word list \<Rightarrow> bool \<times> ostream" where
  "BinWrite sz file dat =
     (let file' = ostream_write file
                    (take (sizeof_T TYPE('a) * DataSize TYPE('a) sz) (raw_bytes dat))
      in (\<not> ofail file', file'))"

subsection \<open>The logical content of a storage array\<close>

text \<open>
  The two-bit group \<open>k\<close> of a word, the group at logical position \<open>i\<close> of an array, the
  complement on groups, and the padding invariant of the class: every group of the
  array at a position from \<open>sz\<close> on is the code 0.
\<close>

definition sym :: "'a::len word \<Rightarrow> nat \<Rightarrow> 'a word" where
  "sym w k = drop_bit (2 * k) w AND 3"

definition code :: "'a::len word list \<Rightarrow> nat \<Rightarrow> 'a word" where
  "code dat i = sym (dat ! (i div TNucl TYPE('a))) (i mod TNucl TYPE('a))"

definition cmpl :: "'a::len word \<Rightarrow> 'a word" where
  "cmpl w = T_of_char (complement (char_of_T w))"

definition padded :: "nat \<Rightarrow> 'a::len word list \<Rightarrow> bool" where
  "padded sz dat \<longleftrightarrow>
     (\<forall>i \<in> {sz..<DataSize TYPE('a) sz * TNucl TYPE('a)}. at dat i = CHR 0x00)"

definition wf_seq :: "nat \<Rightarrow> 'a::len word list \<Rightarrow> bool" where
  "wf_seq sz dat \<longleftrightarrow> length dat = DataSize TYPE('a) sz \<and> padded sz dat"

text \<open>
  \<open>strlen\<close> of the C library: the position of the terminator of a zero-terminated
  string, that is of the first zero byte of the buffer.
\<close>

definition strlen :: "string \<Rightarrow> nat" where
  "strlen s = length (takeWhile (\<lambda>c. c \<noteq> CHR 0x00) s)"


section \<open>Auxiliary facts\<close>

subsection \<open>Constants, groups and conversions\<close>

lemma log_value_pow: "log_value 4 2 = 2" "log_value 8 2 = 3" "log_value 16 2 = 4" "log_value 32 2 = 5"
  by (simp_all add: log_value.simps)

lemma TBits_eq: "cxx_word TYPE('a::len) \<Longrightarrow> TBits TYPE('a) = LENGTH('a)"
  by (auto simp: cxx_word_def TBits_def sizeof_T_def push_bit_eq_mult)

lemma TNucl_eq: "cxx_word TYPE('a::len) \<Longrightarrow> 2 * TNucl TYPE('a) = LENGTH('a)"
  by (auto simp: cxx_word_def TNucl_def TBits_def sizeof_T_def push_bit_eq_mult drop_bit_eq_div)

lemma TNucl_pow: "cxx_word TYPE('a::len) \<Longrightarrow> 2 ^ TNuclBits TYPE('a) = TNucl TYPE('a)"
  by (auto simp: cxx_word_def TNuclBits_def TNucl_def TBits_def sizeof_T_def push_bit_eq_mult drop_bit_eq_div log_value_pow)

lemma TNucl_pos: "cxx_word TYPE('a::len) \<Longrightarrow> 0 < TNucl TYPE('a)"
  using TNucl_eq[where 'a='a] by (cases "TNucl TYPE('a)") auto

lemma sizeof_T_eq: "cxx_word TYPE('a::len) \<Longrightarrow> 8 * sizeof_T TYPE('a) = LENGTH('a)"
  by (auto simp: cxx_word_def sizeof_T_def)

lemma shift_div: "cxx_word TYPE('a::len) \<Longrightarrow> drop_bit (TNuclBits TYPE('a)) i = i div TNucl TYPE('a)"
  by (simp add: drop_bit_eq_div TNucl_pow)

lemma and_mod: "cxx_word TYPE('a::len) \<Longrightarrow> i AND (TNucl TYPE('a) - 1) = i mod TNucl TYPE('a)"
  by (metis TNucl_pow mask_eq_exp_minus_1 take_bit_eq_mask take_bit_eq_mod)

lemma DataSize_eq: "cxx_word TYPE('a::len) \<Longrightarrow> DataSize TYPE('a) sz = (sz + TNucl TYPE('a) - 1) div TNucl TYPE('a)"
  by (simp add: DataSize_def shift_div)

lemma at_code: "cxx_word TYPE('a::len) \<Longrightarrow> at (d :: 'a word list) i = char_of_T (code d i)"
  using and_mod[where 'a='a and i=i] by (simp add: at_def code_def sym_def shift_div push_bit_eq_mult mult.commute)

lemma three_mask: "(3 :: 'a::len word) = mask 2"
  by (simp add: mask_eq_exp_minus_1)

lemma sym_take_bit: "take_bit 2 (sym w k) = sym w k"
  by (simp add: sym_def three_mask take_bit_eq_mask)

lemma code_take_bit: "take_bit 2 (code d i) = code d i"
  by (simp add: code_def sym_take_bit)

lemma sym_set: 
  fixes w :: "'a::len word"
  assumes "2 * k + 2 \<le> LENGTH('a)" "2 * j + 2 \<le> LENGTH('a)" 
  shows "sym ((w AND NOT (push_bit (2 * k) 3)) OR push_bit (2 * k) (take_bit 2 c)) j = (if j = k then take_bit 2 c else sym w j)"
  using assms unfolding sym_def three_mask
  apply (intro bit_eqI)
  apply (auto simp: bit_simps )
  done

lemma bit_sym: "bit (sym w k) n \<longleftrightarrow> n < 2 \<and> bit w (2 * k + n)"
  for w :: "'a::len word"
  unfolding sym_def three_mask by (auto simp: bit_simps dest: bit_imp_le_length)

lemma word_eq_syms:
  fixes w v :: "'a::len word"
  assumes "\<And>k. 2 * k < LENGTH('a) \<Longrightarrow> sym w k = sym v k"
  shows "w = v"
proof (rule bit_word_eqI)
  fix n assume n: "n < LENGTH('a)"
  have "2 * (n div 2) < LENGTH('a)" using n by simp
  then have e: "sym w (n div 2) = sym v (n div 2)" by (rule assms)
  have "bit (sym w (n div 2)) (n mod 2) = bit (sym v (n div 2)) (n mod 2)" using e by simp
  then show "bit w n = bit v n" by (simp add: bit_sym)
qed

lemma list_eq_codes:
  fixes d e :: "'a::len word list"
  assumes cw: "cxx_word TYPE('a)" and len: "length d = length e"
    and eq: "\<And>i. i < length d * TNucl TYPE('a) \<Longrightarrow> code d i = code e i"
  shows "d = e"
proof (rule nth_equalityI[OF len])
  fix j assume j: "j < length d"
  let ?K = "TNucl TYPE('a)"
  show "d ! j = e ! j"
  proof (rule word_eq_syms)
    fix k assume "2 * k < LENGTH('a)"
    then have k: "k < ?K" using TNucl_eq[OF cw] by simp
    have "j * ?K + k < length d * ?K"
    proof -
      have "j * ?K + k < j * ?K + ?K" using k by simp
      also have "\<dots> = (Suc j) * ?K" by simp
      also have "\<dots> \<le> length d * ?K" using j by (intro mult_le_mono1) simp
      finally show ?thesis .
    qed
    from eq[OF this] show "sym (d ! j) k = sym (e ! j) k"
      using k by (simp add: code_def)
  qed
qed

lemma of_char_less_256: "(of_char c :: nat) < 256"
  by (metis of_char_mod_256 mod_less_divisor zero_less_numeral)

lemma cxx_word_ge_8: "cxx_word TYPE('a::len) \<Longrightarrow> (256::nat) \<le> 2 ^ LENGTH('a)"
  by (auto simp: cxx_word_def)

lemma char_of_T_of_int:
  assumes "cxx_word TYPE('a::len)"
  shows "char_of_T (of_int k :: 'a word) = char_of k"
proof -
  have ge: "8 \<le> LENGTH('a)" using assms by (auto simp: cxx_word_def)
  have "char_of_T (of_int k :: 'a word) = char_of (uint (of_int k :: 'a word))"
    by (simp add: char_of_T_def char_of_def bit_unsigned_iff)
  also have "\<dots> = char_of (take_bit LENGTH('a) k)" by (simp add: uint_word_of_int_eq)
  also have "\<dots> = char_of k" using ge by (rule char_of_take_bit_eq)
  finally show ?thesis .
qed

lemma char_of_T_inverse: "cxx_word TYPE('a::len) \<Longrightarrow> char_of_T (T_of_char c :: 'a word) = c"
proof -
  assume cw: "cxx_word TYPE('a)"
  have c: "char_of (of_char c :: int) = c" by simp
  have i: "int (of_char c) = (of_char c :: int)" by (rule of_nat_of_char)
  show ?thesis
  proof (cases "(of_char c :: nat) < 128")
    case True
    then have "(T_of_char c :: 'a word) = of_int (of_char c)"
      by (simp add: T_of_char_def i[symmetric])
    then show ?thesis using c by (simp only: char_of_T_of_int[OF cw])
  next
    case False
    then have "(T_of_char c :: 'a word) = of_int (of_char c - 256)"
      by (simp add: T_of_char_def i[symmetric])
    moreover have "char_of ((of_char c :: int) - 256) = char_of ((of_char c - 256) mod 256 :: int)"
      by (simp only: char_of_mod_256)
    moreover have "((of_char c :: int) - 256) mod 256 = of_char c mod 256" by simp
    ultimately show ?thesis using c by (simp only: char_of_T_of_int[OF cw] char_of_mod_256)
  qed
qed

lemma unat_two_bit: "take_bit 2 w = w \<Longrightarrow> unat (w :: 'a::len word) < 4"
proof -
  assume "take_bit 2 w = w"
  then have "unat w = take_bit 2 (unat w)" by (metis unsigned_take_bit_eq)
  also have "\<dots> < 2 ^ 2" by (rule take_bit_nat_less_exp)
  finally show ?thesis by simp
qed

lemma T_of_char_inverse: "take_bit 2 w = w \<Longrightarrow> T_of_char (char_of_T w) = (w :: 'a::len word)"
  using unat_two_bit[of w] by (simp add: char_of_T_def T_of_char_def)

lemma is_dignucl_T: "is_dignucl c \<Longrightarrow> take_bit 2 (T_of_char c :: 'a::len word) = T_of_char c"
  by (simp add: is_dignucl_def T_of_char_def take_bit_of_nat take_bit_nat_eq_self)

lemma is_dignucl_char_of_T: "take_bit 2 w = w \<Longrightarrow> is_dignucl (char_of_T (w :: 'a::len word))"
  using unat_two_bit[of w] by (simp add: is_dignucl_def char_of_T_def)

lemma is_dignucl_dignucl: "is_dignucl (dignucl c)"
  by (simp add: is_dignucl_def dignucl_def)

lemma is_dignucl_complement: "is_dignucl (complement c)"
  apply (simp add: is_dignucl_def complement_def)
  done

lemma complement_involution: "is_dignucl c \<Longrightarrow> complement (complement c) = c"
  apply (simp add: is_dignucl_def complement_def)
  done

lemma nucl_dignucl: "is_nucl c \<Longrightarrow> nucl (dignucl c) = c"
  by (auto simp: is_nucl_def nucl_def dignucl_def)

lemma not_nucl_dignucl: "is_dignucl c \<Longrightarrow> \<not> is_nucl c"
  by (auto simp: is_nucl_def is_dignucl_def)

lemma sym_or: "sym (a OR b) k = sym a k OR sym b k"
  by (intro bit_word_eqI) (auto simp: bit_sym bit_simps)

lemma sym_zero: "sym 0 k = 0"
  by (simp add: sym_def)

lemma sym_push:
  fixes c :: "'a::len word"
  assumes "2 * K = LENGTH('a)" "m < K"
  shows "sym (push_bit (2 * m) (take_bit 2 c)) k = (if k = m then take_bit 2 c else 0)"
  using assms by (intro bit_word_eqI) (auto simp: bit_sym bit_simps)

lemma sym_drop2:
  fixes w :: "'a::len word"
  assumes "2 * K = LENGTH('a)" "k < K"
  shows "sym (drop_bit 2 w) k = (if k + 1 < K then sym w (k + 1) else 0)"
  using assms by (intro bit_word_eqI) (auto simp: bit_sym bit_simps dest!: bit_imp_le_length)

lemma sym_push2:
  fixes w :: "'a::len word"
  assumes "2 * K = LENGTH('a)" "k < K"
  shows "sym (push_bit 2 w) k = (if k = 0 then 0 else sym w (k - 1))"
  using assms by (cases k) (auto intro!: bit_word_eqI simp: bit_sym bit_simps)

lemma sym_two_bit:
  fixes c :: "'a::len word"
  shows "sym (take_bit 2 c) k = (if k = 0 then take_bit 2 c else 0)"
  by (intro bit_word_eqI) (auto simp: bit_sym bit_simps)

lemma sym_mask:
  fixes w :: "'a::len word"
  shows "sym (w AND (push_bit (2 * r) 1 - 1)) k = (if k < r then sym w k else 0)"
  by (intro bit_word_eqI) (auto simp: bit_sym bit_simps simp flip: mask_eq_exp_minus_1 dest: bit_imp_le_length)

lemma sym_top:
  fixes w :: "'a::len word"
  assumes "2 * K = LENGTH('a)"
  shows "drop_bit (LENGTH('a) - 2) w AND 3 = sym w (K - 1)"
proof -
  have "LENGTH('a) - 2 = 2 * (K - 1)" using assms by simp
  then show ?thesis by (simp add: sym_def)
qed

lemma sym_low: "w AND 3 = sym w 0"
  by (simp add: sym_def)

lemma sym_minus1:
  assumes "2 * K = LENGTH('a)" "k < K"
  shows "sym (- 1 :: 'a::len word) k = 3"
  using assms unfolding three_mask by (intro bit_word_eqI) (auto simp: bit_sym bit_simps)

lemma sym_clear:
  fixes w :: "'a::len word"
  assumes "2 * K = LENGTH('a)" "k < K"
  shows "sym (w AND NOT (push_bit (2 * k) 3)) j = (if j = k then 0 else sym w j)"
  using assms unfolding three_mask
  by (intro bit_word_eqI) (auto simp: bit_sym bit_simps dest: bit_imp_le_length)

lemma and_mod': "cxx_word TYPE('a::len) \<Longrightarrow> i AND (TNucl TYPE('a) - Suc 0) = i mod TNucl TYPE('a)"
  using and_mod[where 'a='a] by simp

lemma set_at_eq:
  fixes d :: "'a::len word list"
  assumes "cxx_word TYPE('a)"
  shows "set_at d i c = d[i div TNucl TYPE('a) :=
           (d ! (i div TNucl TYPE('a)) AND NOT (push_bit (2 * (i mod TNucl TYPE('a))) 3))
             OR push_bit (2 * (i mod TNucl TYPE('a))) (T_of_char c)]"
  using assms by (simp add: set_at_def Let_def shift_div and_mod' push_bit_eq_mult mult.commute)

lemma length_set_at [simp]: "length (set_at d i c) = length d"
  by (simp add: set_at_def Let_def)

lemma div_mod_eq: "(j::nat) div K = i div K \<Longrightarrow> j mod K = i mod K \<Longrightarrow> j = i"
  by (metis div_mult_mod_eq)

lemma sym_push_code:
  fixes c :: "'a::len word"
  assumes "2 * K = LENGTH('a)" "m < K" "take_bit 2 c = c"
  shows "sym (push_bit (2 * m) c) k = (if k = m then c else 0)"
  using sym_push[OF assms(1,2), of c k] assms(3) by simp

lemma code_set_at:
  fixes d :: "'a::len word list"
  assumes cw: "cxx_word TYPE('a)" and i: "i < length d * TNucl TYPE('a)" and c: "is_dignucl c"
  shows "code (set_at d i c) j = (if j = i then T_of_char c else code d j)"
proof -
  let ?K = "TNucl TYPE('a)"
  note K = TNucl_eq[OF cw] and Kp = TNucl_pos[OF cw]
  have cell: "i div ?K < length d" using i by (simp add: less_mult_imp_div_less)
  have tb: "take_bit 2 (T_of_char c :: 'a word) = T_of_char c" using c by (rule is_dignucl_T)
  have mi: "i mod ?K < ?K" and mj: "j mod ?K < ?K" using Kp by simp_all
  show ?thesis
  proof (cases "j div ?K = i div ?K")
    case True
    have "code (set_at d i c) j =
        sym ((d ! (i div ?K) AND NOT (push_bit (2 * (i mod ?K)) 3))
             OR push_bit (2 * (i mod ?K)) (take_bit 2 (T_of_char c))) (j mod ?K)"
      using True cell by (simp add: code_def set_at_eq[OF cw] tb)
    also have "\<dots> = (if j mod ?K = i mod ?K then T_of_char c else sym (d ! (i div ?K)) (j mod ?K))"
      by (simp add: sym_or sym_clear[OF K mi] sym_push_code[OF K mi tb] tb)
    finally show ?thesis using True by (auto simp: code_def dest: div_mod_eq)
  next
    case False
    then have "j \<noteq> i" by auto
    with False show ?thesis by (simp add: code_def set_at_eq[OF cw])
  qed
qed

lemma cmpl_two_bit: "take_bit 2 (cmpl w) = cmpl w"
  by (simp add: cmpl_def is_dignucl_T is_dignucl_complement)

lemma cmpl_cmpl: "cxx_word TYPE('a::len) \<Longrightarrow> take_bit 2 w = w \<Longrightarrow> cmpl (cmpl w) = (w :: 'a word)"
  by (simp add: cmpl_def char_of_T_inverse complement_involution is_dignucl_char_of_T T_of_char_inverse)

lemma rc_step_code:
  fixes res :: "'a::len word list"
  assumes cw: "cxx_word TYPE('a)" and sz: "sz \<le> length res * TNucl TYPE('a)" and i: "i < sz"
  shows "code (rc_step sz res i) j =
     (if j = sz - 1 - i then cmpl (code res i)
      else if j = i then cmpl (code res (sz - 1 - i))
      else code res j)"
proof -
  have i1: "i < length res * TNucl TYPE('a)" and i2: "sz - 1 - i < length res * TNucl TYPE('a)"
    using sz i by auto
  let ?r1 = "set_at res i (complement (at res (sz - 1 - i)))"
  have i2': "sz - 1 - i < length ?r1 * TNucl TYPE('a)" using i2 by simp
  have "rc_step sz res i = set_at ?r1 (sz - 1 - i) (complement (at res i))"
    unfolding rc_step_def Let_def by (simp add: char_of_T_inverse[OF cw])
  then have "code (rc_step sz res i) j =
      (if j = sz - 1 - i then T_of_char (complement (at res i))
       else if j = i then T_of_char (complement (at res (sz - 1 - i))) else code res j)"
    by (simp only: code_set_at[OF cw i2' is_dignucl_complement]
        code_set_at[OF cw i1 is_dignucl_complement])
  then show ?thesis by (simp add: cmpl_def at_code[OF cw])
qed

lemma length_rc_step [simp]: "length (rc_step sz res i) = length res"
  by (simp add: rc_step_def Let_def)

lemma rc_loop:
  fixes d :: "'a::len word list"
  assumes cw: "cxx_word TYPE('a)" and sz: "sz \<le> length d * TNucl TYPE('a)"
  shows "n \<le> sz div 2 \<Longrightarrow>
    length (foldl (rc_step sz) d [0..<n]) = length d \<and>
    (\<forall>j. code (foldl (rc_step sz) d [0..<n]) j =
       (if j < n \<or> (sz - n \<le> j \<and> j < sz) then cmpl (code d (sz - 1 - j)) else code d j))"
proof (induction n)
  case 0
  then show ?case by auto
next
  case (Suc n)
  let ?res = "foldl (rc_step sz) d [0..<n]"
  from Suc have IH: "length ?res = length d"
    "\<And>j. code ?res j = (if j < n \<or> (sz - n \<le> j \<and> j < sz) then cmpl (code d (sz - 1 - j)) else code d j)"
    by auto
  have n: "n < sz" "n < sz - n" "Suc n \<le> sz - n" using Suc.prems by auto
  have sz': "sz \<le> length ?res * TNucl TYPE('a)" using sz IH(1) by simp
  have a: "code ?res n = code d n" using n by (simp add: IH(2))
  have "\<not> (sz - 1 - n < n \<or> (sz - n \<le> sz - 1 - n \<and> sz - 1 - n < sz))" using n by arith
  then have b: "code ?res (sz - 1 - n) = code d (sz - 1 - n)" by (simp only: IH(2) if_False)
  have step: "code (rc_step sz ?res n) j =
      (if j = sz - 1 - n then cmpl (code d n)
       else if j = n then cmpl (code d (sz - 1 - n)) else code ?res j)" for j
    by (simp only: rc_step_code[OF cw sz' n(1)] a b)
  have "code (rc_step sz ?res n) j =
       (if j < Suc n \<or> (sz - Suc n \<le> j \<and> j < sz) then cmpl (code d (sz - 1 - j)) else code d j)" for j
  proof -
    consider (last) "j = sz - 1 - n" | (first) "j = n" "j \<noteq> sz - 1 - n"
      | (other) "j \<noteq> n" "j \<noteq> sz - 1 - n" by blast
    then show ?thesis
    proof cases
      case last
      then have "sz - 1 - j = n" "sz - Suc n \<le> j" "j < sz" using n by arith+
      then show ?thesis using last by (simp add: step)
    next
      case first
      then show ?thesis by (simp add: step)
    next
      case other
      then have "(j < Suc n \<or> (sz - Suc n \<le> j \<and> j < sz)) = (j < n \<or> (sz - n \<le> j \<and> j < sz))"
        using n by arith
      then show ?thesis using other by (simp only: step IH(2) if_False)
    qed
  qed
  then show ?case using IH(1) by simp
qed

lemma op_not_code:
  fixes d :: "'a::len word list"
  assumes cw: "cxx_word TYPE('a)" and sz: "sz \<le> length d * TNucl TYPE('a)"
  shows "code (op_not sz d) j = (if j < sz then cmpl (code d (sz - 1 - j)) else code d j)"
    and "length (op_not sz d) = length d"
proof -
  let ?res = "foldl (rc_step sz) d [0..<sz div 2]"
  from rc_loop[OF cw sz, of "sz div 2"] have L: "length ?res = length d"
    and C: "\<And>j. code ?res j = (if j < sz div 2 \<or> (sz - sz div 2 \<le> j \<and> j < sz) then cmpl (code d (sz - 1 - j)) else code d j)"
    by auto
  have odd: "(sz AND 1 = 1) = odd sz" by (simp add: and_one_eq mod_2_eq_odd)
  show "length (op_not sz d) = length d"
    by (simp add: op_not_def Let_def drop_bit_eq_div L)
  show "code (op_not sz d) j = (if j < sz then cmpl (code d (sz - 1 - j)) else code d j)"
  proof (cases "odd sz")
    case True
    then have m: "sz div 2 < length ?res * TNucl TYPE('a)" "sz - 1 - sz div 2 = sz div 2" 
      using sz L by (auto elim!: oddE)
    have "code ?res (sz div 2) = code d (sz div 2)" using True by (auto simp: C elim!: oddE)
    then show ?thesis using True m(2)
      apply (simp add: op_not_def Let_def drop_bit_eq_div odd code_set_at[OF cw m(1)] is_dignucl_complement C at_code[OF cw] cmpl_def[symmetric])
      apply (auto elim!: oddE)
      done
  next
    case False
    then show ?thesis
      by (auto simp add: op_not_def Let_def drop_bit_eq_div odd C elim!: evenE)
  qed
qed

lemma bit_word_of_bytes:
  "bit (word_of_bytes bs :: 'a::len word) n \<longleftrightarrow>
     n < LENGTH('a) \<and> n div 8 < length bs \<and> bit (bs ! (n div 8)) (n mod 8)"
proof (induction bs arbitrary: n)
  case Nil
  then show ?case by (simp add: word_of_bytes_def)
next
  case (Cons b bs)
  have unf: "(word_of_bytes (b # bs) :: 'a word) = ucast b OR push_bit 8 (word_of_bytes bs)"
    by (simp add: word_of_bytes_def)
  show ?case
  proof (cases "n < 8")
    case True
    then show ?thesis by (auto simp: unf bit_simps)
  next
    case False
    then have "n div 8 = Suc ((n - 8) div 8)" "(n - 8) mod 8 = n mod 8"
      by (auto simp: le_div_geq le_mod_geq)
    with False show ?thesis
      by (auto simp: unf bit_simps Cons.IH dest: bit_imp_le_length)
  qed
qed

lemma length_word_bytes [simp]: "length (word_bytes (w :: 'a::len word)) = sizeof_T TYPE('a)"
  by (simp add: word_bytes_def)

lemma word_of_bytes_inverse:
  assumes cw: "cxx_word TYPE('a::len)"
  shows "word_of_bytes (word_bytes w) = (w :: 'a word)"
proof (rule bit_word_eqI)
  fix n assume n: "n < LENGTH('a)"
  then have k: "n div 8 < sizeof_T TYPE('a)" using sizeof_T_eq[OF cw] by auto
  have "bit (word_bytes w ! (n div 8)) (n mod 8) = bit w n"
    using k n by (simp add: word_bytes_def bit_simps)
  then show "bit (word_of_bytes (word_bytes w) :: 'a word) n = bit w n"
    using n k by (simp add: bit_word_of_bytes)
qed

lemma raw_bytes_Cons: "raw_bytes (w # d) = word_bytes w @ raw_bytes d"
  by (simp add: raw_bytes_def)

lemma length_raw_bytes: "length (raw_bytes (d :: 'a::len word list)) = sizeof_T TYPE('a) * length d"
  by (induction d) (simp_all add: raw_bytes_def)

lemma unraw_raw_bytes:
  assumes cw: "cxx_word TYPE('a::len)"
  shows "unraw (length d) (raw_bytes d) = (d :: 'a word list)"
proof (induction d)
  case Nil
  show ?case by simp
next
  case (Cons w d)
  then show ?case by (simp add: raw_bytes_Cons word_of_bytes_inverse[OF cw])
qed

lemma raw_bytes_inj:
  assumes cw: "cxx_word TYPE('a::len)" and len: "length d = length e"
    and eq: "raw_bytes d = raw_bytes (e :: 'a word list)"
  shows "d = e"
  by (metis cw len eq unraw_raw_bytes)

lemma memcmp_zero:
  "n \<le> length xs \<Longrightarrow> n \<le> length ys \<Longrightarrow> memcmp xs ys n = 0 \<longleftrightarrow> take n xs = take n ys"
  by (induction xs ys n rule: memcmp.induct) auto

lemma seq_eq_iff:
  fixes d e :: "'a::len word list"
  assumes cw: "cxx_word TYPE('a)" and d: "length d = DataSize TYPE('a) sz" and e: "length e = DataSize TYPE('a) sz"
  shows "seq_eq sz d e \<longleftrightarrow> d = e"
proof -
  let ?n = "sizeof_T TYPE('a) * DataSize TYPE('a) sz"
  have "seq_eq sz d e \<longleftrightarrow> take ?n (raw_bytes d) = take ?n (raw_bytes e)"
    unfolding seq_eq_def using memcmp_zero[of ?n "raw_bytes d" "raw_bytes e"]
    by (auto simp: length_raw_bytes d e)
  also have "\<dots> \<longleftrightarrow> raw_bytes d = raw_bytes e" by (simp add: length_raw_bytes d e)
  also have "\<dots> \<longleftrightarrow> d = e" using raw_bytes_inj[OF cw _ ] d e by auto
  finally show ?thesis .
qed

lemma DataSize_cover: "cxx_word TYPE('a::len) \<Longrightarrow> sz \<le> DataSize TYPE('a) sz * TNucl TYPE('a)"
proof -
  assume cw: "cxx_word TYPE('a)"
  let ?K = "TNucl TYPE('a)"
  have Kp: "0 < ?K" by (rule TNucl_pos[OF cw])
  have "sz + ?K - 1 < ((sz + ?K - 1) div ?K) * ?K + ?K"
    using Kp by (metis add.commute div_mult_mod_eq mod_less_divisor nat_add_left_cancel_less mult.commute)
  then show ?thesis using Kp by (simp add: DataSize_eq[OF cw])
qed

lemma cxx8: "cxx_word TYPE(8)" by (simp add: cxx_word_def)
lemma cxx64: "cxx_word TYPE(64)" by (simp add: cxx_word_def)
lemma consts8: "TNucl TYPE(8) = 4" "TNuclBits TYPE(8) = 2" "TBits TYPE(8) = 8" "sizeof_T TYPE(8) = 1"
  by (simp_all add: TNucl_def TNuclBits_def TBits_def sizeof_T_def log_value_pow)
lemma consts64: "TNucl TYPE(64) = 32" "TNuclBits TYPE(64) = 5" "TBits TYPE(64) = 64" "sizeof_T TYPE(64) = 8"
  by (simp_all add: TNucl_def TNuclBits_def TBits_def sizeof_T_def log_value_pow)

lemma char_of_T_zero: "take_bit 2 w = w \<Longrightarrow> char_of_T (w :: 'a::len word) = CHR 0x00 \<longleftrightarrow> w = 0"
proof
  assume t: "take_bit 2 w = w" and "char_of_T w = CHR 0x00"
  then have "T_of_char (char_of_T w) = (T_of_char (CHR 0x00) :: 'a word)" by simp
  then show "w = 0" using t by (simp add: T_of_char_inverse) (simp add: T_of_char_def)
next
  assume "w = 0" then show "char_of_T w = CHR 0x00" by (simp add: char_of_T_def char_of_def)
qed

lemma char_of_T_eq: "take_bit 2 w = w \<Longrightarrow> take_bit 2 v = v \<Longrightarrow> char_of_T (w :: 'a::len word) = char_of_T v \<longleftrightarrow> w = v"
  by (metis T_of_char_inverse)

lemma padded_code:
  "cxx_word TYPE('a::len) \<Longrightarrow> padded sz (d :: 'a word list) \<longleftrightarrow>
     (\<forall>i. sz \<le> i \<and> i < DataSize TYPE('a) sz * TNucl TYPE('a) \<longrightarrow> code d i = 0)"
  by (auto simp: padded_def at_code char_of_T_zero code_take_bit)

lemma shl_loop:
  fixes dat :: "'a::len word list"
  shows "m \<le> length dat \<Longrightarrow>
    length (fst (foldl shl_step (dat, rm) (rev [0..<m]))) = length dat \<and>
    (\<forall>j. fst (foldl shl_step (dat, rm) (rev [0..<m])) ! j =
       (if j < m then drop_bit 2 (dat ! j) OR
            push_bit (TBits TYPE('a) - 2) (if j = m - 1 then rm else dat ! (j + 1) AND 3)
        else dat ! j))"
proof (induction m arbitrary: dat rm)
  case 0
  then show ?case by simp
next
  case (Suc m)
  let ?X = "drop_bit 2 (dat ! m) OR push_bit (TBits TYPE('a) - 2) rm"
  let ?d1 = "dat[m := ?X]"
  let ?r1 = "dat ! m AND 3"
  have unf: "foldl shl_step (dat, rm) (rev [0..<Suc m]) = foldl shl_step (?d1, ?r1) (rev [0..<m])"
    by (simp add: shl_step_def Let_def)
  have m: "m < length dat" "m \<le> length ?d1" using Suc.prems by auto
  note IH = Suc.IH[OF m(2), of ?r1]
  have len: "length (fst (foldl shl_step (dat, rm) (rev [0..<Suc m]))) = length dat"
    unfolding unf using IH by simp
  have "fst (foldl shl_step (dat, rm) (rev [0..<Suc m])) ! j =
       (if j < Suc m then drop_bit 2 (dat ! j) OR
            push_bit (TBits TYPE('a) - 2) (if j = Suc m - 1 then rm else dat ! (j + 1) AND 3)
        else dat ! j)" for j
  proof -
    consider "j < m" "j + 1 < m" | "j < m" "j + 1 = m" | "j = m" | "m < j" by linarith
    then show ?thesis
    proof cases
      case 1
      then have "j \<noteq> m - 1" "j \<noteq> m" "j + 1 \<noteq> m" "j < Suc m" "j \<noteq> Suc m - 1" by arith+
      with 1 show ?thesis unfolding unf using IH by simp
    next
      case 2 then show ?thesis unfolding unf using IH by auto
    next
      case 3 then show ?thesis unfolding unf using IH m by simp
    next
      case 4 then show ?thesis unfolding unf using IH by simp
    qed
  qed
  with len show ?case by blast
qed

lemma last_cell:
  assumes cw: "cxx_word TYPE('a::len)" and sz: "0 < sz"
  shows "(sz - 1) div TNucl TYPE('a) = DataSize TYPE('a) sz - 1"
    and "(sz + TNucl TYPE('a) - 1) mod TNucl TYPE('a) = (sz - 1) mod TNucl TYPE('a)"
    and "0 < DataSize TYPE('a) sz"
proof -
  let ?K = "TNucl TYPE('a)"
  have Kp: "0 < ?K" by (rule TNucl_pos[OF cw])
  have e: "sz + ?K - 1 = (sz - 1) + ?K" using sz by simp
  have d: "(sz - 1 + ?K) div ?K = (sz - 1) div ?K + 1"
    using Kp div_add_self2[of ?K "sz - 1"] by simp
  show "(sz - 1) div ?K = DataSize TYPE('a) sz - 1"
    unfolding DataSize_eq[OF cw] e d by simp
  show "(sz + ?K - 1) mod ?K = (sz - 1) mod ?K" unfolding e by simp
  show "0 < DataSize TYPE('a) sz" unfolding DataSize_eq[OF cw] e d by simp
qed

lemma push_bit_1_nat: "push_bit 1 (x::nat) = 2 * x"
  by (simp add: push_bit_eq_mult)

lemma op_shl_cells:
  fixes d :: "'a::len word list"
  assumes cw: "cxx_word TYPE('a)" and sz: "0 < sz" and len: "length d = DataSize TYPE('a) sz"
    and c: "\<not> is_nucl c"
  shows "length (op_shl sz d c) = length d"
    and "j < length d \<Longrightarrow> op_shl sz d c ! j =
       (if j < length d - 1
        then drop_bit 2 (d ! j) OR push_bit (2 * (TNucl TYPE('a) - 1)) (sym (d ! (j + 1)) 0)
        else drop_bit 2 (d ! j) OR push_bit (2 * ((sz - 1) mod TNucl TYPE('a))) (T_of_char c))"
proof -
  let ?K = "TNucl TYPE('a)"
  let ?n = "DataSize TYPE('a) sz"
  note lc = last_cell[OF cw sz]
  have sh: "TBits TYPE('a) - 2 = 2 * (?K - 1)" using TBits_eq[OF cw] TNucl_eq[OF cw] by simp
  let ?d1 = "d[?n - 1 := drop_bit 2 (d ! (?n - 1)) OR push_bit (2 * ((sz - 1) mod ?K)) (T_of_char c)]"
  have unf: "op_shl sz d c = (if ?n \<ge> 2 then fst (foldl shl_step (?d1, d ! (?n - 1) AND 3) (rev [0..<?n - 1])) else ?d1)"
    unfolding op_shl_def Let_def and_mod[OF cw] lc(2) push_bit_1_nat using lc(3) c by simp
  have m: "?n - 1 \<le> length ?d1" using len by simp
  note L = shl_loop[OF m, of "d ! (?n - 1) AND 3"]
  show "length (op_shl sz d c) = length d" using L by (simp add: unf)
  assume j: "j < length d"
  show "op_shl sz d c ! j =
       (if j < length d - 1
        then drop_bit 2 (d ! j) OR push_bit (2 * (?K - 1)) (sym (d ! (j + 1)) 0)
        else drop_bit 2 (d ! j) OR push_bit (2 * ((sz - 1) mod ?K)) (T_of_char c))"
  proof (cases "?n \<ge> 2")
    case True
    note Lj = L[THEN conjunct2, THEN spec, of j]
    consider "j + 1 < ?n - 1" | "j + 1 = ?n - 1" | "j = ?n - 1" using j len by linarith
    then show ?thesis
    proof cases
      case 1
      then have f: "j < ?n - 1" "j \<noteq> ?n - 1 - 1" "j \<noteq> ?n - 1" "j + 1 \<noteq> ?n - 1" "j < length d - 1"
        using len by arith+
      have "op_shl sz d c ! j = drop_bit 2 (d ! j) OR push_bit (TBits TYPE('a) - 2) (d ! (j + 1) AND 3)"
        unfolding unf using True Lj f by (simp only: if_True if_False nth_list_update_neq not_False_eq_True)
      then show ?thesis using f(5) by (simp only: sh sym_low if_True)
    next
      case 2
      then have f: "j < ?n - 1" "j = ?n - 1 - 1" "j \<noteq> ?n - 1" "j < length d - 1" "?n - 1 = j + 1"
        using len by arith+
      have g: "?n - 1 \<noteq> ?n - 1 - 1" using f(2,3) by simp
      have "op_shl sz d c ! j = drop_bit 2 (d ! j) OR push_bit (TBits TYPE('a) - 2) (d ! (?n - 1) AND 3)"
        unfolding unf using True Lj f(1,2,3) g by (simp only: if_True if_False simp_thms nth_list_update_neq)
      then show ?thesis using f(4) unfolding f(5) by (simp only: sh sym_low if_True)
    next
      case 3
      then have f: "\<not> j < ?n - 1" "\<not> j < length d - 1" "j < length d" using len j by arith+
      have "op_shl sz d c ! j = ?d1 ! j"
        unfolding unf using True Lj f(1) by (simp only: if_True if_False)
      then show ?thesis using f 3 by simp
    qed
  next
    case False
    then have "j = ?n - 1" "?n = 1" using j len lc(3) by auto
    then show ?thesis using len by (simp add: unf)
  qed
qed


lemma succ_div_mod:
  fixes K :: nat
  shows "i mod K + 1 < K \<Longrightarrow> (i + 1) div K = i div K \<and> (i + 1) mod K = i mod K + 1"
    and "i mod K + 1 = K \<Longrightarrow> (i + 1) div K = i div K + 1 \<and> (i + 1) mod K = 0"
  by (simp_all add: mod_Suc div_Suc)

lemma cell_bound:
  fixes K :: nat
  assumes "i div K < n" "0 < K"
  shows "i < n * K"
proof -
  have "i < (i div K) * K + K" using assms(2) by (metis add.commute div_mult_mod_eq mod_less_divisor nat_add_left_cancel_less mult.commute)
  also have "\<dots> = Suc (i div K) * K" by simp
  also have "\<dots> \<le> n * K" using assms(1) by (intro mult_le_mono1) simp
  finally show ?thesis .
qed

lemma op_shl_code:
  fixes d :: "'a::len word list"
  assumes cw: "cxx_word TYPE('a)" and sz: "0 < sz" and len: "length d = DataSize TYPE('a) sz"
    and c: "is_dignucl c" and i: "i < length d * TNucl TYPE('a)"
  shows "code (op_shl sz d c) i =
     (if i + 1 < length d * TNucl TYPE('a) then code d (i + 1) else 0)
       OR (if i = sz - 1 then T_of_char c else 0)"
proof -
  let ?K = "TNucl TYPE('a)"
  let ?j = "i div ?K" and ?k = "i mod ?K"
  note K = TNucl_eq[OF cw] and Kp = TNucl_pos[OF cw]
  note lc = last_cell[OF cw sz]
  have j: "?j < length d" using i by (simp add: less_mult_imp_div_less)
  have k: "?k < ?K" using Kp by simp
  have K1: "?K - 1 < ?K" using Kp by simp
  have r: "(sz - 1) mod ?K < ?K" using Kp by simp
  have tb: "take_bit 2 (T_of_char c :: 'a word) = T_of_char c" using c by (rule is_dignucl_T)
  note cells = op_shl_cells[OF cw sz len not_nucl_dignucl[OF c]]
  have nxt: "(if ?k + 1 < ?K then sym (d ! ?j) (?k + 1) else 0) OR (if ?k = ?K - 1 then sym (d ! (?j + 1)) 0 else 0)
      = code d (i + 1)"
  proof (cases "?k + 1 < ?K")
    case True
    then have ne: "?k \<noteq> ?K - 1" by simp
    have "code d (i + 1) = sym (d ! ?j) (?k + 1)"
      unfolding code_def using succ_div_mod(1)[OF True] by simp
    then show ?thesis using True ne by (simp only: if_True if_False simp_thms or.right_neutral)
  next
    case False
    then have e: "?k + 1 = ?K" using k by simp
    then have eq: "?k = ?K - 1" by simp
    have "code d (i + 1) = sym (d ! (?j + 1)) 0"
      unfolding code_def using succ_div_mod(2)[OF e] by simp
    then show ?thesis using False eq by (simp only: if_True if_False simp_thms or.left_neutral)
  qed
  show ?thesis
  proof (cases "?j < length d - 1")
    case True
    then have ne: "i \<noteq> sz - 1" using lc(1) len by auto
    have "?j + 1 < length d" using True by simp
    then have "(i + 1) div ?K < length d" by (simp add: div_Suc)
    then have b: "i + 1 < length d * ?K" using Kp by (rule cell_bound)
    have "code (op_shl sz d c) i = sym (drop_bit 2 (d ! ?j) OR push_bit (2 * (?K - 1)) (sym (d ! (?j + 1)) 0)) ?k"
      using cells(2)[OF j] True by (simp add: code_def)
    also have "\<dots> = (if ?k + 1 < ?K then sym (d ! ?j) (?k + 1) else 0) OR (if ?k = ?K - 1 then sym (d ! (?j + 1)) 0 else 0)"
      by (simp only: sym_or sym_drop2[OF K k] sym_push_code[OF K K1 sym_take_bit])
    also have "\<dots> = code d (i + 1)" by (rule nxt)
    finally show ?thesis using ne b by simp
  next
    case False
    then have jl: "?j = length d - 1" using j by simp
    then have same: "?j = (sz - 1) div ?K" using lc(1) len by simp
    have is_last: "i = sz - 1 \<longleftrightarrow> ?k = (sz - 1) mod ?K"
      using same by (auto dest: div_mod_eq)
    have b: "i + 1 < length d * ?K \<longleftrightarrow> ?k + 1 < ?K"
    proof
      assume "?k + 1 < ?K"
      then have "(i + 1) div ?K < length d" using j by (simp add: div_Suc mod_Suc)
      then show "i + 1 < length d * ?K" using Kp by (rule cell_bound)
    next
      assume "i + 1 < length d * ?K"
      then have "(i + 1) div ?K < length d" by (simp add: less_mult_imp_div_less)
      then have "(i + 1) div ?K = ?j" using jl by (simp add: div_Suc split: if_splits)
      then show "?k + 1 < ?K" using k by (simp add: div_Suc mod_Suc split: if_splits)
    qed
    have "code (op_shl sz d c) i = sym (drop_bit 2 (d ! ?j) OR push_bit (2 * ((sz - 1) mod ?K)) (T_of_char c)) ?k"
      using cells(2)[OF j] False by (simp add: code_def)
    also have "\<dots> = (if ?k + 1 < ?K then sym (d ! ?j) (?k + 1) else 0) OR (if ?k = (sz - 1) mod ?K then T_of_char c else 0)"
      by (simp only: sym_or sym_drop2[OF K k] sym_push_code[OF K r tb])
    also have "(if ?k + 1 < ?K then sym (d ! ?j) (?k + 1) else 0) = (if ?k + 1 < ?K then code d (i + 1) else 0)"
      using succ_div_mod(1)[of i ?K] by (simp add: code_def)
    finally show ?thesis using is_last b by simp
  qed
qed


lemma wf_seqD:
  assumes "cxx_word TYPE('a::len)" "wf_seq sz (d :: 'a word list)"
  shows "length d = DataSize TYPE('a) sz"
    and "sz \<le> length d * TNucl TYPE('a)"
    and "\<And>i. sz \<le> i \<Longrightarrow> i < length d * TNucl TYPE('a) \<Longrightarrow> code d i = 0"
  using assms DataSize_cover[OF assms(1), of sz] by (auto simp: wf_seq_def padded_code)

lemma wf_seqI:
  assumes "cxx_word TYPE('a::len)" "length d = DataSize TYPE('a) sz"
    "\<And>i. sz \<le> i \<Longrightarrow> i < length d * TNucl TYPE('a) \<Longrightarrow> code (d :: 'a word list) i = 0"
  shows "wf_seq sz d"
  using assms by (auto simp: wf_seq_def padded_code)

lemma DataSize_0: "cxx_word TYPE('a::len) \<Longrightarrow> DataSize TYPE('a) 0 = 0"
  using TNucl_pos[where 'a='a] by (simp add: DataSize_eq)

lemma op_shl_nucl: "is_nucl c \<Longrightarrow> op_shl sz d c = op_shl sz d (dignucl c)"
  using not_nucl_dignucl[OF is_dignucl_dignucl, of c] by (simp add: op_shl_def)

lemma op_shl_wf:
  fixes q :: "'a::len word list"
  assumes cw: "cxx_word TYPE('a)" and wf: "wf_seq sz q" and c: "is_dignucl c"
  shows "wf_seq sz (op_shl sz q c)"
proof (cases "sz = 0")
  case True
  then show ?thesis using wf DataSize_0[OF cw] by (simp add: op_shl_def Let_def)
next
  case False
  then have sz: "0 < sz" by simp
  note q = wf_seqD[OF cw wf]
  note cells = op_shl_cells[OF cw sz q(1) not_nucl_dignucl[OF c]]
  show ?thesis
  proof (rule wf_seqI[OF cw])
    show "length (op_shl sz q c) = DataSize TYPE('a) sz" using cells(1) q(1) by simp
  next
    fix i assume i: "sz \<le> i" "i < length (op_shl sz q c) * TNucl TYPE('a)"
    then have i': "i < length q * TNucl TYPE('a)" using cells(1) by simp
    have "i \<noteq> sz - 1" using i sz by simp
    moreover have "code q (i + 1) = 0" if "i + 1 < length q * TNucl TYPE('a)"
      using q(3)[OF _ that] i by simp
    ultimately show "code (op_shl sz q c) i = 0"
      unfolding op_shl_code[OF cw sz q(1) c i'] by simp
  qed
qed

lemma code_update_same:
  fixes dat :: "'a::len word list"
  assumes "i div TNucl TYPE('a) = cur" "cur < length dat"
  shows "code (dat[cur := w]) i = sym w (i mod TNucl TYPE('a))"
  using assms by (simp add: code_def)

lemma code_update_other:
  fixes dat :: "'a::len word list"
  assumes "i div TNucl TYPE('a) \<noteq> cur"
  shows "code (dat[cur := w]) i = code dat i"
  using assms by (simp add: code_def)

lemma pack_loop:
  fixes mem :: "'a::len word list"
  assumes cw: "cxx_word TYPE('a)"
  shows "m \<le> length mem * TNucl TYPE('a) \<Longrightarrow> (\<forall>i<m. is_dignucl (f i)) \<Longrightarrow>
    \<exists>data dat. foldl (pack_step f) (0, 0, 0, mem) [0..<m]
        = (data, 2 * (m mod TNucl TYPE('a)), m div TNucl TYPE('a), dat) \<and>
      length dat = length mem \<and>
      (\<forall>k<TNucl TYPE('a). sym data k =
          (if k < m mod TNucl TYPE('a) then T_of_char (f (m div TNucl TYPE('a) * TNucl TYPE('a) + k)) else 0)) \<and>
      (\<forall>i<m div TNucl TYPE('a) * TNucl TYPE('a). code dat i = T_of_char (f i))"
proof (induction m)
  case 0
  then show ?case by (simp add: sym_zero)
next
  case (Suc m)
  let ?K = "TNucl TYPE('a)"
  note K = TNucl_eq[OF cw] and Kp = TNucl_pos[OF cw]
  from Suc obtain data dat where
    st: "foldl (pack_step f) (0, 0, 0, mem) [0..<m] = (data, 2 * (m mod ?K), m div ?K, dat)"
    and len: "length dat = length mem"
    and dt: "\<And>k. k < ?K \<Longrightarrow> sym data k = (if k < m mod ?K then T_of_char (f (m div ?K * ?K + k)) else 0)"
    and cd: "\<And>i. i < m div ?K * ?K \<Longrightarrow> code dat i = T_of_char (f i)"
    by auto
  have mk: "m mod ?K < ?K" using Kp by simp
  have tb: "take_bit 2 (T_of_char (f m) :: 'a word) = T_of_char (f m)"
    using Suc.prems(2) by (simp add: is_dignucl_T)
  let ?data' = "data OR push_bit (2 * (m mod ?K)) (T_of_char (f m))"
  have m_eq: "m div ?K * ?K + m mod ?K = m" by simp
  have dt': "sym ?data' k = (if k < m mod ?K + 1 then T_of_char (f (m div ?K * ?K + k)) else 0)"
    if "k < ?K" for k
  proof -
    have "sym ?data' k = sym data k OR (if k = m mod ?K then T_of_char (f m) else 0)"
      by (simp only: sym_or sym_push_code[OF K mk tb])
    then show ?thesis using dt[OF that] m_eq by (cases "k = m mod ?K") auto
  qed
  have step: "foldl (pack_step f) (0, 0, 0, mem) [0..<Suc m] =
     (if 2 * (m mod ?K) + 2 = 2 * ?K then (0, 0, m div ?K + 1, dat[m div ?K := ?data'])
      else (?data', 2 * (m mod ?K) + 2, m div ?K, dat))"
    by (simp add: st pack_step_def Let_def TBits_eq[OF cw] K)
  show ?case
  proof (cases "m mod ?K + 1 = ?K")
    case True
    then have sm: "Suc m mod ?K = 0" "Suc m div ?K = m div ?K + 1"
      using succ_div_mod(2)[of m ?K] by simp_all
    have cur: "m div ?K < length dat" using Suc.prems(1) len
      by (metis Suc_le_lessD less_mult_imp_div_less)
    have "code (dat[m div ?K := ?data']) i = T_of_char (f i)" if "i < (m div ?K + 1) * ?K" for i
    proof (cases "i div ?K = m div ?K")
      case t: True
      have "i mod ?K < m mod ?K + 1" using True Kp by simp
      moreover have "m div ?K * ?K + i mod ?K = i" using t by (metis div_mult_mod_eq)
      ultimately show ?thesis using code_update_same[OF t cur] dt'[of "i mod ?K"] Kp by simp
    next
      case False
      moreover have "i div ?K < m div ?K + 1" using that by (simp add: less_mult_imp_div_less)
      ultimately have "i div ?K < m div ?K" by simp
      then have "i < m div ?K * ?K" using Kp by (rule cell_bound)
      then show ?thesis using False cd by (simp add: code_update_other)
    qed
    then show ?thesis unfolding step sm using True len by (simp add: sym_zero)
  next
    case False
    then have lt: "m mod ?K + 1 < ?K" using mk by simp
    then have sm: "Suc m mod ?K = m mod ?K + 1" "Suc m div ?K = m div ?K"
      using succ_div_mod(1)[of m ?K] by simp_all
    show ?thesis unfolding step sm using False len dt' cd by simp
  qed
qed

lemma ceil_div:
  fixes K :: nat
  assumes "0 < K"
  shows "m mod K = 0 \<Longrightarrow> (m + K - 1) div K = m div K"
    and "m mod K \<noteq> 0 \<Longrightarrow> (m + K - 1) div K = m div K + 1"
proof -
  have m: "m = m div K * K + m mod K" by simp
  { assume z: "m mod K = 0"
    have "m + K - 1 = m div K * K + (K - 1)" using m z assms by simp
    then have "(m + K - 1) div K = m div K + (K - 1) div K" using assms by (metis div_mult_self3 less_not_refl)
    then show "(m + K - 1) div K = m div K" using assms by simp }
  { assume nz: "m mod K \<noteq> 0"
    have r: "m mod K < K" using assms by simp
    obtain r' where r': "m mod K = Suc r'" using nz by (cases "m mod K") auto
    have "m + K - 1 = m div K * K + Suc r' + K - 1" using m r' by simp
    also have "\<dots> = (m div K + 1) * K + r'" by simp
    finally have "m + K - 1 = (m div K + 1) * K + (m mod K - 1)" using r' by simp
    then have "(m + K - 1) div K = (m div K + 1) + (m mod K - 1) div K" using assms by (metis div_mult_self3 less_not_refl)
    then show "(m + K - 1) div K = m div K + 1" using r by simp }
qed

lemma same_cell_less:
  fixes K :: nat
  assumes "i div K = m div K"
  shows "i < m \<longleftrightarrow> i mod K < m mod K"
proof -
  have "i = m div K * K + i mod K" using assms by (metis div_mult_mod_eq)
  moreover have "m = m div K * K + m mod K" by simp
  ultimately show ?thesis by (metis nat_add_left_cancel_less)
qed

lemma pack_flush_code:
  fixes mem :: "'a::len word list"
  assumes cw: "cxx_word TYPE('a)" and m: "m \<le> length mem * TNucl TYPE('a)"
    and v: "\<forall>i<m. is_dignucl (f i)"
  shows "\<exists>dat. pack_flush (foldl (pack_step f) (0, 0, 0, mem) [0..<m])
        = ((m + TNucl TYPE('a) - 1) div TNucl TYPE('a), dat) \<and>
      length dat = length mem \<and>
      (\<forall>i<(m + TNucl TYPE('a) - 1) div TNucl TYPE('a) * TNucl TYPE('a).
          code dat i = (if i < m then T_of_char (f i) else 0))"
proof -
  let ?K = "TNucl TYPE('a)"
  note K = TNucl_eq[OF cw] and Kp = TNucl_pos[OF cw]
  from pack_loop[OF cw m v] obtain data dat where
    st: "foldl (pack_step f) (0, 0, 0, mem) [0..<m] = (data, 2 * (m mod ?K), m div ?K, dat)"
    and len: "length dat = length mem"
    and dt: "\<And>k. k < ?K \<Longrightarrow> sym data k = (if k < m mod ?K then T_of_char (f (m div ?K * ?K + k)) else 0)"
    and cd: "\<And>i. i < m div ?K * ?K \<Longrightarrow> code dat i = T_of_char (f i)"
    by blast
  show ?thesis
  proof (cases "m mod ?K = 0")
    case True
    then have "(m + ?K - 1) div ?K = m div ?K" "m div ?K * ?K = m"
      using ceil_div(1)[OF Kp] by auto
    then show ?thesis unfolding st pack_flush_def using True len cd by simp
  next
    case False
    then have up: "(m + ?K - 1) div ?K = m div ?K + 1"
      using ceil_div(2)[OF Kp] by auto
    have "m div ?K * ?K < m" using False by (metis div_mult_mod_eq less_add_same_cancel1 neq0_conv)
    then have "m div ?K * ?K < length mem * ?K" using m by (rule order.strict_trans2)
    then have cur: "m div ?K < length dat" using len by simp
    have "code (dat[m div ?K := data]) i = (if i < m then T_of_char (f i) else 0)"
      if "i < (m div ?K + 1) * ?K" for i
    proof (cases "i div ?K = m div ?K")
      case t: True
      have e: "m div ?K * ?K + i mod ?K = i" using t by (metis div_mult_mod_eq)
      have "i < m \<longleftrightarrow> i mod ?K < m mod ?K"
        using t by (rule same_cell_less)
      then show ?thesis using code_update_same[OF t cur] dt[of "i mod ?K"] Kp e by simp
    next
      case f: False
      moreover have "i div ?K < m div ?K + 1" using that by (simp add: less_mult_imp_div_less)
      ultimately have "i div ?K < m div ?K" by simp
      then have a: "i < m div ?K * ?K" using Kp by (rule cell_bound)
      moreover have "m div ?K * ?K \<le> m" by simp
      ultimately have "i < m" by (rule order.strict_trans2)
      then show ?thesis using f cd[OF a] by (simp add: code_update_other)
    qed
    then show ?thesis unfolding up st pack_flush_def using False len by simp
  qed
qed


lemma init_result:
  "init sz mem b =
     (if length b \<le> sz then Inl OutOfBounds
      else if b ! sz = CHR 0x00
        then Inr (snd (pack_flush (foldl (pack_step (\<lambda>pos. dignucl (b ! pos))) (0, 0, 0, mem) [0..<sz])))
      else Inl AssertionFailed)"
  by (simp add: init_def Let_def)

lemma init_code:
  fixes mem :: "'a::len word list"
  assumes cw: "cxx_word TYPE('a)" and mem: "length mem = DataSize TYPE('a) sz"
    and b: "sz < length b" "b ! sz = CHR 0x00"
  shows "\<exists>d. init sz mem b = Inr d \<and> length d = DataSize TYPE('a) sz \<and>
     (\<forall>i<DataSize TYPE('a) sz * TNucl TYPE('a).
        code d i = (if i < sz then T_of_char (dignucl (b ! i)) else 0))"
proof -
  have m: "sz \<le> length mem * TNucl TYPE('a)" using DataSize_cover[OF cw, of sz] mem by simp
  have v: "\<forall>i < sz. is_dignucl (dignucl (b ! i))" by (simp add: is_dignucl_dignucl)
  from pack_flush_code[OF cw m v] obtain dat where
    "pack_flush (foldl (pack_step (\<lambda>pos. dignucl (b ! pos))) (0, 0, 0, mem) [0..<sz])
        = ((sz + TNucl TYPE('a) - 1) div TNucl TYPE('a), dat)"
    "length dat = length mem"
    "\<forall>i<(sz + TNucl TYPE('a) - 1) div TNucl TYPE('a) * TNucl TYPE('a).
          code dat i = (if i < sz then T_of_char (dignucl (b ! i)) else 0)"
    by blast
  then show ?thesis using b mem by (simp add: init_result DataSize_eq[OF cw])
qed



lemma strlen_append: "\<forall>c\<in>set s. c \<noteq> CHR 0x00 \<Longrightarrow> strlen (s @ CHR 0x00 # rest) = length s"
  by (simp add: strlen_def)



lemma DataSize_exact:
  assumes cw: "cxx_word TYPE('a::len)" and z: "sz mod TNucl TYPE('a) = 0"
  shows "DataSize TYPE('a) sz * TNucl TYPE('a) = sz"
proof -
  have "sz div TNucl TYPE('a) * TNucl TYPE('a) = sz"
    using z by (metis div_mult_mod_eq add.right_neutral)
  then show ?thesis
    unfolding DataSize_eq[OF cw] ceil_div(1)[OF TNucl_pos[OF cw] z] .
qed

lemma DataSize_last:
  assumes cw: "cxx_word TYPE('a::len)" and nz: "sz mod TNucl TYPE('a) \<noteq> 0"
  shows "sz div TNucl TYPE('a) = DataSize TYPE('a) sz - 1" "0 < DataSize TYPE('a) sz"
  using ceil_div(2)[OF TNucl_pos[OF cw] nz] by (simp_all add: DataSize_eq[OF cw])

lemma wf_no_padding:
  fixes d :: "'a::len word list"
  assumes cw: "cxx_word TYPE('a)" and len: "length d = DataSize TYPE('a) sz"
    and z: "sz mod TNucl TYPE('a) = 0"
  shows "wf_seq sz d"
  using DataSize_exact[OF cw z] by (intro wf_seqI[OF cw len]) (simp add: len)

lemma wf_masked_last:
  fixes d :: "'a::len word list"
  assumes cw: "cxx_word TYPE('a)" and len: "length d = DataSize TYPE('a) sz"
    and nz: "sz mod TNucl TYPE('a) \<noteq> 0"
    and last: "d ! (DataSize TYPE('a) sz - 1) = w AND (push_bit (2 * (sz mod TNucl TYPE('a))) 1 - 1)"
  shows "wf_seq sz d"
proof (rule wf_seqI[OF cw len])
  let ?K = "TNucl TYPE('a)"
  fix i assume i: "sz \<le> i" "i < length d * ?K"
  note dl = DataSize_last[OF cw nz]
  have "i div ?K < length d" using i(2) by (simp add: less_mult_imp_div_less)
  moreover have "sz div ?K \<le> i div ?K" using i(1) by (rule div_le_mono)
  ultimately have c: "i div ?K = sz div ?K" using dl len by simp
  then have nl: "\<not> i mod ?K < sz mod ?K" using same_cell_less[OF c] i(1) by simp
  have "code d i = sym (d ! (DataSize TYPE('a) sz - 1)) (i mod ?K)"
    using c dl(1) by (simp add: code_def)
  also have "\<dots> = sym (w AND (push_bit (2 * (sz mod ?K)) 1 - 1)) (i mod ?K)"
    by (simp only: last)
  also have "\<dots> = 0" using nl by (simp only: sym_mask if_False)
  finally show "code d i = 0" .
qed

lemma length_shr_steps: "length (fst (foldl shr_step st xs)) = length (fst st)"
  by (induction xs arbitrary: st) (simp_all add: shr_step_def Let_def split: prod.splits)

lemma length_shr_loop:
  "length (fst (foldl shr_step (dat, rm) [0..<m])) = length dat"
  by (simp add: length_shr_steps)

lemma op_shr_wf:
  fixes q :: "'a::len word list"
  assumes cw: "cxx_word TYPE('a)" and len: "length q = DataSize TYPE('a) sz"
    and c: "is_dignucl c \<or> is_nucl c"
  shows "\<exists>d. op_shr sz q c = Inr d \<and> wf_seq sz d"
proof -
  let ?K = "TNucl TYPE('a)"
  let ?c = "if is_nucl c then dignucl c else c"
  let ?res = "fst (foldl shr_step (q, T_of_char ?c) [0..<DataSize TYPE('a) sz])"
  have v: "is_dignucl ?c" using c by (auto simp: is_dignucl_dignucl)
  have lr: "length ?res = DataSize TYPE('a) sz" by (simp add: length_shr_loop len)
  show ?thesis
  proof (cases "sz mod ?K = 0")
    case True
    then have "op_shr sz q c = Inr ?res" using v by (simp add: op_shr_def Let_def and_mod'[OF cw])
    then show ?thesis using wf_no_padding[OF cw lr True] by simp
  next
    case False
    let ?d = "?res[DataSize TYPE('a) sz - 1 := ?res ! (DataSize TYPE('a) sz - 1) AND (push_bit (2 * (sz mod ?K)) 1 - 1)]"
    have "op_shr sz q c = Inr ?d"
      using v False by (simp add: op_shr_def Let_def and_mod'[OF cw] push_bit_1_nat mult.commute)
    moreover have "wf_seq sz ?d"
      using DataSize_last[OF cw False] lr by (intro wf_masked_last[OF cw _ False]) simp_all
    ultimately show ?thesis by simp
  qed
qed

lemma length_copy_loop:
  "length (foldl (\<lambda>dat i. dat[i := arr ! i]) mem xs) = length mem"
  by (induction xs arbitrary: mem) simp_all

lemma Seq_of_array_wf:
  fixes mem :: "'a::len word list"
  assumes cw: "cxx_word TYPE('a)" and len: "length mem = DataSize TYPE('a) sz"
    and sz: "0 < sz" and arr: "DataSize TYPE('a) sz \<le> length data_array"
  shows "\<exists>d. Seq_of_array sz mem data_array = Inr d \<and> wf_seq sz d"
proof -
  let ?K = "TNucl TYPE('a)"
  let ?n = "DataSize TYPE('a) sz"
  let ?dat = "foldl (\<lambda>dat i. dat[i := data_array ! i]) mem [0..<?n - 1]"
  have n: "0 < ?n" by (rule last_cell(3)[OF cw sz])
  have ld: "length ?dat = ?n" by (simp add: length_copy_loop len)
  show ?thesis
  proof (cases "sz mod ?K = 0")
    case True
    then have "Seq_of_array sz mem data_array = Inr ?dat"
      using n arr by (simp add: Seq_of_array_def Let_def NuclsRemain_def and_mod'[OF cw])
    then show ?thesis using wf_no_padding[OF cw ld True] by simp
  next
    case False
    let ?d = "?dat[?n - 1 := data_array ! (?n - 1) AND (push_bit (2 * (sz mod ?K)) 1 - 1)]"
    have "Seq_of_array sz mem data_array = Inr ?d"
      using n arr False
      by (simp add: Seq_of_array_def Let_def NuclsRemain_def MaskForLastBucket_def and_mod'[OF cw] push_bit_1_nat mult.commute)
    moreover have "wf_seq sz ?d"
      using n ld by (intro wf_masked_last[OF cw _ False]) simp_all
    ultimately show ?thesis by simp
  qed
qed

lemma Seq_default_wf: "cxx_word TYPE('a::len) \<Longrightarrow> wf_seq sz (Seq_default sz :: 'a word list)"
proof (rule wf_seqI)
  fix i assume "cxx_word TYPE('a)" "i < length (Seq_default sz :: 'a word list) * TNucl TYPE('a)"
  then have "i div TNucl TYPE('a) < DataSize TYPE('a) sz"
    by (simp add: Seq_default_def less_mult_imp_div_less)
  then show "code (Seq_default sz :: 'a word list) i = 0"
    by (simp add: code_def Seq_default_def sym_zero)
qed (simp_all add: Seq_default_def)

lemma op_not_wf:
  fixes q :: "'a::len word list"
  assumes cw: "cxx_word TYPE('a)" and wf: "wf_seq sz q"
  shows "wf_seq sz (op_not sz q)"
proof -
  note q = wf_seqD[OF cw wf]
  note oc = op_not_code[OF cw q(2)]
  show ?thesis
  proof (rule wf_seqI[OF cw])
    show "length (op_not sz q) = DataSize TYPE('a) sz" using oc(2) q(1) by simp
  next
    fix i assume "sz \<le> i" "i < length (op_not sz q) * TNucl TYPE('a)"
    then show "code (op_not sz q) i = 0" using q(3)[of i] oc by simp
  qed
qed

lemma init_wf:
  fixes mem :: "'a::len word list"
  assumes cw: "cxx_word TYPE('a)" and mem: "length mem = DataSize TYPE('a) sz"
    and b: "sz < length b" "b ! sz = CHR 0x00"
  shows "\<exists>d. init sz mem b = Inr d \<and> wf_seq sz d"
proof -
  from init_code[OF cw mem b] obtain d where
    d: "init sz mem b = Inr d" "length d = DataSize TYPE('a) sz"
    "\<And>i. i < DataSize TYPE('a) sz * TNucl TYPE('a) \<Longrightarrow>
        code d i = (if i < sz then T_of_char (dignucl (b ! i)) else 0)"
    by blast
  have "wf_seq sz d" using d(2,3) by (intro wf_seqI[OF cw]) simp_all
  with d(1) show ?thesis by blast
qed


lemma zero_fill:
  "length (foldl (\<lambda>dat cur. dat[cur := 0]) dat [a..<b]) = length dat \<and>
   (\<forall>j < length dat. foldl (\<lambda>dat cur. dat[cur := 0]) dat [a..<b] ! j =
      (if a \<le> j \<and> j < b then (0 :: 'a::len word) else dat ! j))"
proof (induction b)
  case 0
  then show ?case by simp
next
  case (Suc b)
  let ?r = "foldl (\<lambda>dat cur. dat[cur := 0]) dat [a..<b]"
  from Suc have len: "length ?r = length dat"
    and nth: "\<And>j. j < length dat \<Longrightarrow> ?r ! j = (if a \<le> j \<and> j < b then 0 else dat ! j)"
    by auto
  show ?case
  proof (cases "a \<le> b")
    case True
    then have unf: "foldl (\<lambda>dat cur. dat[cur := 0]) dat [a..<Suc b] = ?r[b := 0]" by simp
    have "?r[b := 0] ! j = (if a \<le> j \<and> j < Suc b then 0 else dat ! j)" if "j < length dat" for j
    proof (cases "j = b")
      case t: True
      then show ?thesis using that len True by simp
    next
      case False
      then have "(j < Suc b) = (j < b)" by auto
      then show ?thesis using False nth[OF that] by simp
    qed
    then show ?thesis unfolding unf using len by simp
  next
    case False
    then show ?thesis by auto
  qed
qed

lemma Seq_of_source_wf:
  fixes mem :: "'a::len word list"
  assumes cw: "cxx_word TYPE('a)" and mem: "length mem = DataSize TYPE('a) sz"
    and s: "s 0 = Some s0" "is_dignucl s0 \<or> is_nucl s0"
    and rng: "n \<le> sz"
    and v: "\<forall>i < n. \<exists>x. s (offset + i) = Some x \<and> (is_dignucl s0 \<longrightarrow> is_dignucl x)"
  shows "\<exists>d. Seq_of_source sz mem s offset n = Inr d \<and> wf_seq sz d"
proof -
  let ?K = "TNucl TYPE('a)"
  let ?N = "DataSize TYPE('a) sz"
  let ?f = "\<lambda>i. if is_dignucl s0 then the (s (offset + i)) else dignucl (the (s (offset + i)))"
  have cov: "sz \<le> ?N * ?K" by (rule DataSize_cover[OF cw])
  have m: "n \<le> length mem * ?K" using rng cov mem by simp
  have vf: "\<forall>i < n. is_dignucl (?f i)" using v by (auto simp: is_dignucl_dignucl)
  have def: "\<not> list_ex (\<lambda>i. s (offset + i) = None) [0..<n]"
    using v by (auto simp: list_ex_iff)
  from pack_flush_code[OF cw m vf] obtain dat where
    fl: "pack_flush (foldl (pack_step ?f) (0, 0, 0, mem) [0..<n]) = ((n + ?K - 1) div ?K, dat)"
    and ld: "length dat = length mem"
    and cd: "\<And>i. i < (n + ?K - 1) div ?K * ?K \<Longrightarrow> code dat i = (if i < n then T_of_char (?f i) else 0)"
    by blast
  let ?cur = "(n + ?K - 1) div ?K"
  let ?d = "foldl (\<lambda>dat cur. dat[cur := 0]) dat [?cur..<?N]"
  note zf = zero_fill[of dat ?cur ?N]
  have "\<not> ?N * ?K < n" using rng cov by simp
  then have res: "Seq_of_source sz mem s offset n = Inr ?d"
    using s def by (simp add: Seq_of_source_def Let_def fl)
  have "wf_seq sz ?d"
  proof (rule wf_seqI[OF cw])
    show "length ?d = ?N" using zf ld mem by simp
  next
    fix i assume i: "sz \<le> i" "i < length ?d * ?K"
    then have j: "i div ?K < ?N" using zf ld mem by (simp add: less_mult_imp_div_less)
    show "code ?d i = 0"
    proof (cases "?cur \<le> i div ?K")
      case True
      then have "?d ! (i div ?K) = 0" using zf j ld mem by simp
      then show ?thesis by (simp add: code_def sym_zero)
    next
      case False
      then have "?d ! (i div ?K) = dat ! (i div ?K)" using zf j ld mem by simp
      then have "code ?d i = code dat i" by (simp add: code_def)
      moreover have "i < ?cur * ?K" using False TNucl_pos[OF cw] by (intro cell_bound) simp_all
      moreover have "\<not> i < n" using i(1) rng by simp
      ultimately show ?thesis using cd by simp
    qed
  qed
  with res show ?thesis by blast
qed

lemma seq_source_dignucl: "seq_source dat i = Some x \<Longrightarrow> is_dignucl x"
proof -
  assume "seq_source dat i = Some x"
  then have x: "x = at dat i" by (simp add: seq_source_def split: if_splits)
  have "take_bit 2 (w AND 3) = w AND 3" for w :: "'a::len word"
    by (simp add: three_mask take_bit_eq_mask)
  then show ?thesis unfolding x at_def by (rule is_dignucl_char_of_T)
qed

lemma at_code_zero:
  "cxx_word TYPE('a::len) \<Longrightarrow> at (d :: 'a word list) i = CHR 0x00 \<longleftrightarrow> code d i = 0"
  by (simp add: at_code char_of_T_zero code_take_bit)

lemma op_shl_padded_iff:
  fixes q :: "'a::len word list"
  assumes cw: "cxx_word TYPE('a)" and len: "length q = DataSize TYPE('a) sz"
    and c: "is_dignucl c \<or> is_nucl c"
  shows "padded sz (op_shl sz q c) \<longleftrightarrow>
    (\<forall>i. sz < i \<and> i < DataSize TYPE('a) sz * TNucl TYPE('a) \<longrightarrow> at q i = CHR 0x00)"
proof (cases "sz = 0")
  case True
  then show ?thesis using DataSize_0[OF cw] by (simp add: padded_code[OF cw])
next
  case False
  then have sz: "0 < sz" by simp
  let ?K = "TNucl TYPE('a)"
  let ?N = "DataSize TYPE('a) sz"
  let ?c = "if is_nucl c then dignucl c else c"
  have v: "is_dignucl ?c" using c by (auto simp: is_dignucl_dignucl)
  have e: "op_shl sz q c = op_shl sz q ?c" by (simp add: op_shl_nucl)
  have cd: "code (op_shl sz q ?c) i = (if i + 1 < ?N * ?K then code q (i + 1) else 0)"
    if "sz \<le> i" "i < ?N * ?K" for i
  proof -
    have "i \<noteq> sz - 1" using that sz by simp
    then show ?thesis unfolding op_shl_code[OF cw sz len v that(2)[folded len]] by (simp add: len)
  qed
  show ?thesis
  proof
    assume p: "padded sz (op_shl sz q c)"
    show "\<forall>i. sz < i \<and> i < ?N * ?K \<longrightarrow> at q i = CHR 0x00"
    proof (intro allI impI)
      fix i assume i: "sz < i \<and> i < ?N * ?K"
      then obtain j where j: "i = j + 1" "sz \<le> j" "j < ?N * ?K" by (cases i) auto
      have "code (op_shl sz q ?c) j = 0" using p j(2,3) by (simp add: e padded_code[OF cw])
      then have "code q i = 0" using cd[OF j(2,3)] i j(1) by simp
      then show "at q i = CHR 0x00" by (simp add: at_code_zero[OF cw])
    qed
  next
    assume a: "\<forall>i. sz < i \<and> i < ?N * ?K \<longrightarrow> at q i = CHR 0x00"
    have "code (op_shl sz q ?c) i = 0" if i: "sz \<le> i" "i < ?N * ?K" for i
    proof (cases "i + 1 < ?N * ?K")
      case True
      then have "code q (i + 1) = 0" using a i(1) by (simp add: at_code_zero[OF cw])
      then show ?thesis using cd[OF i] True by simp
    next
      case False
      then show ?thesis using cd[OF i] by simp
    qed
    then show "padded sz (op_shl sz q c)" by (simp add: e padded_code[OF cw])
  qed
qed

lemma op_not_padded_iff:
  fixes q :: "'a::len word list"
  assumes cw: "cxx_word TYPE('a)" and len: "length q = DataSize TYPE('a) sz"
  shows "padded sz (op_not sz q) \<longleftrightarrow> padded sz q"
proof -
  have sz: "sz \<le> length q * TNucl TYPE('a)" using DataSize_cover[OF cw, of sz] len by simp
  note oc = op_not_code[OF cw sz]
  show ?thesis by (auto simp: padded_code[OF cw] oc(1))
qed

lemma three_neq_0: "(3 :: 'a::len word) \<noteq> 0"
proof
  assume a: "(3 :: 'a word) = 0"
  have "bit (3 :: 'a word) 0" by simp
  then have "bit (0 :: 'a word) 0" unfolding a .
  then show False by simp
qed

lemma GetZero_padded:
  assumes cw: "cxx_word TYPE('a::len)"
  shows "padded sz (GetZero sz :: 'a word list) \<longleftrightarrow> sz mod TNucl TYPE('a) = 0"
proof -
  let ?K = "TNucl TYPE('a)"
  let ?N = "DataSize TYPE('a) sz"
  note K = TNucl_eq[OF cw] and Kp = TNucl_pos[OF cw]
  have gz: "(GetZero sz :: 'a word list) = replicate ?N (- 1)"
    by (simp add: GetZero_def SetZero_def Seq_default_def)
  show ?thesis
  proof (cases "sz mod ?K = 0")
    case True
    then show ?thesis using DataSize_exact[OF cw True] by (auto simp: padded_code[OF cw])
  next
    case False
    have "sz div ?K * ?K < sz" using False by (metis div_mult_mod_eq less_add_same_cancel1 neq0_conv)
    have lt: "sz div ?K < ?N" using DataSize_last[OF cw False] by simp
    then have "sz < ?N * ?K" using Kp by (rule cell_bound)
    moreover have "code (GetZero sz :: 'a word list) sz = 3"
      using lt Kp by (simp add: gz code_def sym_minus1[OF K])
    ultimately have "sz \<le> sz \<and> sz < ?N * ?K \<and> code (GetZero sz :: 'a word list) sz \<noteq> 0"
      using three_neq_0[where 'a='a] by (simp del: word_eq_numeral_iff_iszero)
    then have "\<not> padded sz (GetZero sz :: 'a word list)"
      unfolding padded_code[OF cw] by blast
    then show ?thesis using False by simp
  qed
qed

lemma copy_loop_nth:
  "j < length mem \<Longrightarrow>
   foldl (\<lambda>dat i. dat[i := arr ! i]) mem [0..<m] ! j = (if j < m then arr ! j else mem ! j)"
proof (induction m)
  case 0
  then show ?case by simp
next
  case (Suc m)
  then show ?case by (cases "j = m") (simp_all add: length_copy_loop)
qed

lemma Seq_of_array_symbols:
  fixes mem :: "'a::len word list"
  assumes cw: "cxx_word TYPE('a)" and len: "length mem = DataSize TYPE('a) sz"
    and nz: "sz mod TNucl TYPE('a) \<noteq> 0" and arr: "DataSize TYPE('a) sz \<le> length data_array"
  shows "\<exists>d. Seq_of_array sz mem data_array = Inr d \<and> wf_seq sz d \<and>
           (\<forall>i. i < sz \<longrightarrow> at d i = at data_array i)"
proof -
  let ?K = "TNucl TYPE('a)"
  let ?n = "DataSize TYPE('a) sz"
  let ?dat = "foldl (\<lambda>dat i. dat[i := data_array ! i]) mem [0..<?n - 1]"
  let ?d = "?dat[?n - 1 := data_array ! (?n - 1) AND (push_bit (2 * (sz mod ?K)) 1 - 1)]"
  note dl = DataSize_last[OF cw nz]
  have ld: "length ?dat = ?n" by (simp add: length_copy_loop len)
  have res: "Seq_of_array sz mem data_array = Inr ?d"
    using dl(2) arr nz
    by (simp add: Seq_of_array_def Let_def NuclsRemain_def MaskForLastBucket_def and_mod'[OF cw]
        push_bit_1_nat mult.commute)
  have wf: "wf_seq sz ?d"
    using dl(2) ld by (intro wf_masked_last[OF cw _ nz]) simp_all
  have "at ?d i = at data_array i" if i: "i < sz" for i
  proof -
    have "sz div ?K < ?n" using dl by simp
    moreover have "i div ?K \<le> sz div ?K" using i by (intro div_le_mono) simp
    ultimately have j: "i div ?K < ?n" by simp
    have "code ?d i = code data_array i"
    proof (cases "i div ?K = ?n - 1")
      case True
      then have c: "i div ?K = sz div ?K" using dl(1) by simp
      have lt: "i mod ?K < sz mod ?K" using same_cell_less[OF c] i by simp
      have "code ?d i = sym (data_array ! (?n - 1) AND (push_bit (2 * (sz mod ?K)) 1 - 1)) (i mod ?K)"
        using True j ld by (simp add: code_def)
      also have "\<dots> = sym (data_array ! (?n - 1)) (i mod ?K)"
        using lt by (simp only: sym_mask if_True)
      also have "\<dots> = code data_array i" using True by (simp add: code_def)
      finally show ?thesis .
    next
      case False
      then have "i div ?K < ?n - 1" using j by simp
      then show ?thesis using False len copy_loop_nth[of "i div ?K" mem data_array "?n - 1"]
        by (simp add: code_def)
    qed
    then show ?thesis by (simp add: at_code[OF cw])
  qed
  with res wf show ?thesis by blast
qed

section \<open>Reverse complement\<close>

text \<open>
  C5. For every sequence \<open>q\<close> of size \<open>sz\<close> (an array of \<open>DataSize\<close> words), the reverse
  complement of the reverse complement is equal to \<open>q\<close> under \<open>operator==\<close>, and the
  symbol of the reverse complement at every position \<open>i < sz\<close> is the complement of the
  symbol of \<open>q\<close> at \<open>sz - 1 - i\<close>.
\<close>

theorem reverse_complement:
  fixes q :: "'a::len word list"
  assumes "cxx_word TYPE('a)" and "length q = DataSize TYPE('a) sz"
  shows "seq_eq sz (op_not sz (op_not sz q)) q \<and>
         (\<forall>i. i < sz \<longrightarrow> at (op_not sz q) i = complement (at q (sz - 1 - i)))"
proof -
  note cw = assms(1)
  have sz: "sz \<le> length q * TNucl TYPE('a)" using DataSize_cover[OF cw, of sz] assms(2) by simp
  note oc = op_not_code[OF cw sz]
  have sz2: "sz \<le> length (op_not sz q) * TNucl TYPE('a)" using sz oc(2) by simp
  note oc2 = op_not_code[OF cw sz2]
  have "op_not sz (op_not sz q) = q"
  proof (rule list_eq_codes[OF cw])
    show "length (op_not sz (op_not sz q)) = length q" by (simp add: oc2(2) oc(2))
  next
    fix j
    show "code (op_not sz (op_not sz q)) j = code q j"
    proof (cases "j < sz")
      case True
      then have "sz - 1 - (sz - 1 - j) = j" "sz - 1 - j < sz" by arith+
      then show ?thesis using True
        by (simp add: oc2(1) oc(1) cmpl_cmpl[OF cw] code_take_bit)
    next
      case False
      then show ?thesis by (simp add: oc2(1) oc(1))
    qed
  qed
  then have "seq_eq sz (op_not sz (op_not sz q)) q"
    using seq_eq_iff[OF cw assms(2) assms(2)] by simp
  moreover have "at (op_not sz q) i = complement (at q (sz - 1 - i))" if "i < sz" for i
    using that by (simp add: at_code[OF cw] oc(1) cmpl_def char_of_T_inverse[OF cw])
  ultimately show ?thesis by blast
qed

theorem reverse_complement_witness:
  "seq_eq 5 (op_not 5 (op_not 5 [228, 1 :: 8 word])) [228, 1 :: 8 word] \<and>
   at (op_not 5 [228, 1 :: 8 word]) 0 = complement (at [228, 1 :: 8 word] 4) \<and>
   at (op_not 5 [228, 1 :: 8 word]) 0 = CHR 0x02 \<and>
   str 5 [228, 1 :: 8 word] = ''ACGTC'' \<and> str 5 (op_not 5 [228, 1 :: 8 word]) = ''GACGT''"
proof -
  have len: "length [228, 1 :: 8 word] = DataSize TYPE(8) 5"
    by (simp add: DataSize_def consts8 drop_bit_eq_div)
  have v: "at (op_not 5 [228, 1 :: 8 word]) 0 = CHR 0x02"
    by code_simp
  have s: "str 5 [228, 1 :: 8 word] = ''ACGTC''" "str 5 (op_not 5 [228, 1 :: 8 word]) = ''GACGT''"
    by code_simp+
  from reverse_complement[OF cxx8 len] v s show ?thesis by simp
qed

section \<open>Functors and members agree\<close>

text \<open>
  C10. For all sequences \<open>l\<close>, \<open>r\<close> of the same size and word type the functor \<open>hash\<close>
  returns what the member \<open>GetHash\<close> returns, and the functor \<open>equal_to\<close> returns what
  \<open>operator==\<close> returns.
\<close>

theorem functors_agree:
  "hash_functor sz l = GetHash sz l \<and> equal_to sz l r = seq_eq sz l r"
  unfolding hash_functor_def GetHash_def equal_to_def seq_eq_def by auto

section \<open>Equality and hashing\<close>

text \<open>
  C6, as amended. For all sequences \<open>q1\<close>, \<open>q2\<close> of the same size and word type (arrays
  of \<open>DataSize\<close> words), \<open>q1 == q2\<close> holds exactly when the storage arrays are
  identical, and then the symbols agree at every position below \<open>sz\<close> and the
  \<open>GetHash\<close> values are equal. Equality of the symbols at every position below \<open>sz\<close>
  gives \<open>q1 == q2\<close> whenever the padding groups of the two arrays agree, in particular
  when both have zero padding.
\<close>

theorem equality_storage_symbols_hash:
  fixes q1 q2 :: "'a::len word list"
  assumes "cxx_word TYPE('a)" and "length q1 = DataSize TYPE('a) sz"
    and "length q2 = DataSize TYPE('a) sz"
  shows "(seq_eq sz q1 q2 \<longleftrightarrow> q1 = q2) \<and>
         (seq_eq sz q1 q2 \<longrightarrow> (\<forall>i. i < sz \<longrightarrow> at q1 i = at q2 i)) \<and>
         ((\<forall>i. sz \<le> i \<and> i < DataSize TYPE('a) sz * TNucl TYPE('a) \<longrightarrow> at q1 i = at q2 i) \<longrightarrow>
            (seq_eq sz q1 q2 \<longleftrightarrow> (\<forall>i. i < sz \<longrightarrow> at q1 i = at q2 i))) \<and>
         (padded sz q1 \<and> padded sz q2 \<longrightarrow>
            (seq_eq sz q1 q2 \<longleftrightarrow> (\<forall>i. i < sz \<longrightarrow> at q1 i = at q2 i))) \<and>
         (seq_eq sz q1 q2 \<longrightarrow> GetHash sz q1 = GetHash sz q2)"
proof -
  note cw = assms(1) and l1 = assms(2) and l2 = assms(3)
  have eq: "seq_eq sz q1 q2 \<longleftrightarrow> q1 = q2" by (rule seq_eq_iff[OF cw l1 l2])
  have all: "q1 = q2" if sy: "\<forall>i. i < DataSize TYPE('a) sz * TNucl TYPE('a) \<longrightarrow> at q1 i = at q2 i"
  proof (rule list_eq_codes[OF cw])
    show "length q1 = length q2" by (simp add: l1 l2)
  next
    fix i assume "i < length q1 * TNucl TYPE('a)"
    with sy have "char_of_T (code q1 i) = char_of_T (code q2 i)"
      by (simp add: at_code[OF cw] l1)
    then show "code q1 i = code q2 i" by (simp add: char_of_T_eq code_take_bit)
  qed
  have pad: "seq_eq sz q1 q2 \<longleftrightarrow> (\<forall>i. i < sz \<longrightarrow> at q1 i = at q2 i)"
    if "\<forall>i. sz \<le> i \<and> i < DataSize TYPE('a) sz * TNucl TYPE('a) \<longrightarrow> at q1 i = at q2 i"
  proof
    assume "seq_eq sz q1 q2"
    then show "\<forall>i. i < sz \<longrightarrow> at q1 i = at q2 i" using eq by simp
  next
    assume "\<forall>i. i < sz \<longrightarrow> at q1 i = at q2 i"
    with that have "\<forall>i. i < DataSize TYPE('a) sz * TNucl TYPE('a) \<longrightarrow> at q1 i = at q2 i"
      by (metis not_le)
    then show "seq_eq sz q1 q2" using all eq by simp
  qed
  have zero: "\<forall>i. sz \<le> i \<and> i < DataSize TYPE('a) sz * TNucl TYPE('a) \<longrightarrow> at q1 i = at q2 i"
    if "padded sz q1 \<and> padded sz q2"
    using that by (simp add: padded_def)
  from eq pad zero show ?thesis by blast
qed

theorem equality_storage_symbols_hash_witness:
  "padded 5 [228, 1 :: 8 word] \<and> padded 5 [228, 2 :: 8 word] \<and>
   \<not> seq_eq 5 [228, 1 :: 8 word] [228, 2] \<and> at [228, 1 :: 8 word] 4 \<noteq> at [228, 2 :: 8 word] 4 \<and>
   seq_eq 5 [228, 1 :: 8 word] [228, 1] \<and> GetHash 5 [228, 1 :: 8 word] = 236748"
proof -
  have l: "length [228, 1 :: 8 word] = DataSize TYPE(8) 5"
    "length [228, 2 :: 8 word] = DataSize TYPE(8) 5" by code_simp+
  have w1: "padded 5 [228, 1 :: 8 word]" and w2: "padded 5 [228, 2 :: 8 word]" by code_simp+
  have a: "at [228, 1 :: 8 word] 4 \<noteq> at [228, 2 :: 8 word] 4" by code_simp
  have h: "GetHash 5 [228, 1 :: 8 word] = 236748" by code_simp
  from equality_storage_symbols_hash[OF cxx8 l(1) l(2)]
    equality_storage_symbols_hash[OF cxx8 l(1) l(1)] a h w1 w2
  show ?thesis by auto
qed

text \<open>
  The claim C6 as stated fails where it equates storage and symbols for all sequences:
  for size 5 and 8-bit words, the sentinel \<open>GetZero\<close> and the sequence constructed from
  TTTTT have the same symbol at each of the positions 0 to 4, and \<open>operator==\<close> is
  false on them.
\<close>

theorem equal_symbols_unequal_storage_counterexample:
  "GetZero 5 = [255, 255 :: 8 word] \<and>
   init 5 [0, 0 :: 8 word] (''TTTTT'' @ [CHR 0x00]) = Inr [255, 3] \<and>
   at (GetZero 5 :: 8 word list) 0 = at [255, 3 :: 8 word] 0 \<and>
   at (GetZero 5 :: 8 word list) 1 = at [255, 3 :: 8 word] 1 \<and>
   at (GetZero 5 :: 8 word list) 2 = at [255, 3 :: 8 word] 2 \<and>
   at (GetZero 5 :: 8 word list) 3 = at [255, 3 :: 8 word] 3 \<and>
   at (GetZero 5 :: 8 word list) 4 = at [255, 3 :: 8 word] 4 \<and>
   str 5 (GetZero 5 :: 8 word list) = ''TTTTT'' \<and> str 5 [255, 3 :: 8 word] = ''TTTTT'' \<and>
   \<not> seq_eq 5 (GetZero 5 :: 8 word list) [255, 3]"
  by code_simp

section \<open>Shift left\<close>

text \<open>
  C3, as amended. For every sequence \<open>q\<close> of size \<open>sz > 0\<close> (an array of \<open>DataSize\<close>
  words) and every symbol \<open>c\<close> given as a two-bit code, the symbol of \<open>q << c\<close> at every
  \<open>i < sz - 1\<close> is the symbol of \<open>q\<close> at \<open>i + 1\<close>; and its symbol at \<open>sz - 1\<close> is \<open>c\<close>
  whenever the padding group of \<open>q\<close> at position \<open>sz\<close> is 0 or there is none (\<open>sz\<close> a
  multiple of the number of symbols in a word), in particular whenever \<open>q\<close> has zero
  padding.
\<close>

theorem shift_left:
  fixes q :: "'a::len word list"
  assumes "cxx_word TYPE('a)" and "length q = DataSize TYPE('a) sz"
    and "0 < sz" and "is_dignucl c"
  shows "(\<forall>i. i < sz - 1 \<longrightarrow> at (op_shl sz q c) i = at q (i + 1)) \<and>
         (sz mod TNucl TYPE('a) = 0 \<or> at q sz = CHR 0x00 \<longrightarrow> at (op_shl sz q c) (sz - 1) = c) \<and>
         (padded sz q \<longrightarrow> at (op_shl sz q c) (sz - 1) = c)"
proof -
  note cw = assms(1) and len = assms(2) and sz = assms(3) and c = assms(4)
  let ?K = "TNucl TYPE('a)"
  have cov: "sz \<le> length q * ?K" using DataSize_cover[OF cw, of sz] len by simp
  have l: "sz - 1 < length q * ?K" using cov sz by simp
  have s1: "sz - 1 + 1 = sz" using sz by simp
  have last: "at (op_shl sz q c) (sz - 1) = c"
    if "sz < length q * ?K \<longrightarrow> code q sz = 0"
  proof -
    have "code (op_shl sz q c) (sz - 1) = T_of_char c"
      unfolding op_shl_code[OF cw sz len c l] s1 using that by simp
    then show ?thesis by (simp add: at_code[OF cw] char_of_T_inverse[OF cw])
  qed
  have a: "at (op_shl sz q c) i = at q (i + 1)" if "i < sz - 1" for i
  proof -
    have i: "i < length q * ?K" "i + 1 < length q * ?K" "i \<noteq> sz - 1"
      using that cov by simp_all
    show ?thesis unfolding at_code[OF cw] op_shl_code[OF cw sz len c i(1)] using i by simp
  qed
  have b: "at (op_shl sz q c) (sz - 1) = c" if "sz mod ?K = 0 \<or> at q sz = CHR 0x00"
  proof (rule last, rule impI)
    assume lt: "sz < length q * ?K"
    then have "sz mod ?K \<noteq> 0" using DataSize_exact[OF cw, of sz] len by auto
    with that show "code q sz = 0" by (simp add: at_code_zero[OF cw])
  qed
  have p: "at (op_shl sz q c) (sz - 1) = c" if "padded sz q"
    using that by (intro last) (simp add: padded_code[OF cw] len)
  from a b p show ?thesis by blast
qed

theorem shift_left_witness:
  "padded 5 [228, 1 :: 8 word] \<and> is_dignucl (CHR 0x03) \<and> at [228, 1 :: 8 word] 5 = CHR 0x00 \<and>
   at (op_shl 5 [228, 1 :: 8 word] (CHR 0x03)) 4 = CHR 0x03 \<and>
   at (op_shl 5 [228, 1 :: 8 word] (CHR 0x03)) 0 = at [228, 1 :: 8 word] 1 \<and>
   at (op_shl 5 [255, 255 :: 8 word] (CHR 0x03)) 0 = at [255, 255 :: 8 word] 1 \<and>
   str 5 [228, 1 :: 8 word] = ''ACGTC'' \<and>
   str 5 (op_shl 5 [228, 1 :: 8 word] (CHR 0x03)) = ''CGTCT''"
proof -
  have l: "length [228, 1 :: 8 word] = DataSize TYPE(8) 5"
    "length [255, 255 :: 8 word] = DataSize TYPE(8) 5" by code_simp+
  have w: "padded 5 [228, 1 :: 8 word]" by code_simp
  have g: "at [228, 1 :: 8 word] 5 = CHR 0x00" by code_simp
  have c: "is_dignucl (CHR 0x03)" by code_simp
  have s: "str 5 [228, 1 :: 8 word] = ''ACGTC''"
    "str 5 (op_shl 5 [228, 1 :: 8 word] (CHR 0x03)) = ''CGTCT''" by code_simp+
  from shift_left[OF cxx8 l(1) _ c] shift_left[OF cxx8 l(2) _ c] w g c s show ?thesis by simp
qed

text \<open>
  The claim C3 as stated fails for a sequence whose padding is not zero: for size 5
  and 8-bit words the sentinel \<open>GetZero\<close> shifted left by the code 0 has the symbol 3
  at position 4, the padding group it held at position 5.
\<close>

theorem shift_left_sentinel_counterexample:
  "GetZero 5 = [255, 255 :: 8 word] \<and>
   op_shl 5 (GetZero 5 :: 8 word list) (CHR 0x00) = [255, 63] \<and>
   at (op_shl 5 (GetZero 5 :: 8 word list) (CHR 0x00)) 4 = CHR 0x03 \<and>
   at (op_shl 5 (GetZero 5 :: 8 word list) (CHR 0x00)) 4 \<noteq> CHR 0x00"
  by code_simp

section \<open>Construction from a string\<close>

text \<open>
  C4. For every string \<open>s\<close> of length exactly \<open>sz\<close> over the characters A, C, G, T,
  constructing a sequence from the zero-terminated \<open>s\<close> returns a sequence, and \<open>str\<close> of
  that sequence is \<open>s\<close>.
\<close>

theorem string_round_trip:
  fixes mem :: "'a::len word list"
  assumes "cxx_word TYPE('a)" and "length mem = DataSize TYPE('a) sz"
    and "length s = sz" and "\<forall>c\<in>set s. is_nucl c"
  shows "\<exists>d. init sz mem (s @ CHR 0x00 # rest) = Inr d \<and> str sz d = s"
proof -
  note cw = assms(1)
  let ?b = "s @ CHR 0x00 # rest"
  have b: "sz < length ?b" "?b ! sz = CHR 0x00" using assms(3) by (simp_all add: nth_append)
  from init_code[OF cw assms(2) b] obtain d where
    d: "init sz mem ?b = Inr d" "length d = DataSize TYPE('a) sz"
    and c: "\<And>i. i < DataSize TYPE('a) sz * TNucl TYPE('a) \<Longrightarrow>
        code d i = (if i < sz then T_of_char (dignucl (?b ! i)) else 0)"
    by blast
  have "str sz d = s"
  proof (rule nth_equalityI)
    show "length (str sz d) = length s" by (simp add: str_def assms(3))
  next
    fix i assume "i < length (str sz d)"
    then have i: "i < sz" by (simp add: str_def)
    then have "i < DataSize TYPE('a) sz * TNucl TYPE('a)"
      using DataSize_cover[OF cw, of sz] by simp
    from c[OF this] i have "code d i = T_of_char (dignucl (s ! i))"
      using assms(3) by (simp add: nth_append)
    then have "at d i = dignucl (s ! i)" by (simp add: at_code[OF cw] char_of_T_inverse[OF cw])
    moreover have "is_nucl (s ! i)" using assms(3,4) i by simp
    ultimately show "str sz d ! i = s ! i" using i by (simp add: str_def nucl_dignucl)
  qed
  with d(1) show ?thesis by blast
qed

theorem string_round_trip_witness:
  "init 5 [0, 0 :: 8 word] (''ACGTC'' @ [CHR 0x00]) = Inr [228, 1] \<and>
   str 5 [228, 1 :: 8 word] = ''ACGTC'' \<and>
   (\<exists>d. init 5 [0, 0 :: 8 word] (''ACGTC'' @ [CHR 0x00]) = Inr d \<and> str 5 d = ''ACGTC'')"
proof -
  have l: "length [0, 0 :: 8 word] = DataSize TYPE(8) 5" by code_simp
  have v: "\<forall>c\<in>set ''ACGTC''. is_nucl c" by (simp add: is_nucl_def)
  have e: "init 5 [0, 0 :: 8 word] (''ACGTC'' @ [CHR 0x00]) = Inr [228, 1]"
    "str 5 [228, 1 :: 8 word] = ''ACGTC''" by code_simp+
  from string_round_trip[OF cxx8 l _ v, of "[]"] e show ?thesis by simp
qed




section \<open>Binary serialisation\<close>

text \<open>
  C7. For every sequence \<open>q\<close> of size \<open>sz\<close>, \<open>BinWrite\<close> on a stream that has not failed
  and whose sink has room succeeds and appends exactly \<open>sizeof(T) * DataSize\<close> bytes;
  \<open>BinRead\<close> of those bytes (whatever follows them in the stream, whatever the
  sequence read into held) succeeds, consumes exactly them and yields the storage of
  \<open>q\<close>, a sequence equal to \<open>q\<close> under \<open>operator==\<close>.
\<close>

theorem serialization_round_trip:
  fixes q d0 :: "'a::len word list"
  assumes "cxx_word TYPE('a)" and "length q = DataSize TYPE('a) sz"
    and "length d0 = DataSize TYPE('a) sz"
    and "\<not> ofail out" and "sizeof_T TYPE('a) * DataSize TYPE('a) sz \<le> room out"
  shows "fst (BinWrite sz out q) \<and>
         take (length (sent out)) (sent (snd (BinWrite sz out q))) = sent out \<and>
         length (sent (snd (BinWrite sz out q))) =
           length (sent out) + sizeof_T TYPE('a) * DataSize TYPE('a) sz \<and>
         BinRead sz \<lparr>avail = drop (length (sent out)) (sent (snd (BinWrite sz out q))) @ rest,
                     not_good = False\<rparr> d0
           = (True, \<lparr>avail = rest, not_good = False\<rparr>, q) \<and>
         seq_eq sz
           (snd (snd (BinRead sz
              \<lparr>avail = drop (length (sent out)) (sent (snd (BinWrite sz out q))) @ rest,
               not_good = False\<rparr> d0))) q"
proof -
  note cw = assms(1)
  let ?n = "sizeof_T TYPE('a) * DataSize TYPE('a) sz"
  have n: "length (raw_bytes q) = ?n" "length (raw_bytes d0) = ?n"
    by (simp_all add: length_raw_bytes assms(2,3))
  have w: "BinWrite sz out q =
      (True, out\<lparr>sent := sent out @ raw_bytes q, room := room out - ?n\<rparr>)"
    using assms(4,5) n by (simp add: BinWrite_def ostream_write_def Let_def)
  have u: "unraw (DataSize TYPE('a) sz) (raw_bytes q) = q"
    using unraw_raw_bytes[OF cw, of q] assms(2) by simp
  have r: "BinRead sz \<lparr>avail = raw_bytes q @ rest, not_good = False\<rparr> d0 =
      (True, \<lparr>avail = rest, not_good = False\<rparr>, q)"
    using n u by (simp add: BinRead_def istream_read_def Let_def)
  have e: "seq_eq sz q q" using seq_eq_iff[OF cw assms(2) assms(2)] by simp
  show ?thesis using n(1) r e by (simp add: w)
qed

theorem serialization_round_trip_witness:
  "BinWrite 33 \<lparr>sent = [7], room = 100, ofail = False\<rparr> [12074683284807193060, 3 :: 64 word] =
     (True, \<lparr>sent = [7, 228, 145, 71, 30, 121, 228, 145, 167, 3, 0, 0, 0, 0, 0, 0, 0], room = 84, ofail = False\<rparr>) \<and>
   BinRead 33 \<lparr>avail = [228, 145, 71, 30, 121, 228, 145, 167, 3, 0, 0, 0, 0, 0, 0, 0, 9], not_good = False\<rparr>
       [0, 0 :: 64 word] =
     (True, \<lparr>avail = [9], not_good = False\<rparr>, [12074683284807193060, 3])"
proof -
  have l: "length [12074683284807193060, 3 :: 64 word] = DataSize TYPE(64) 33"
    "length [0, 0 :: 64 word] = DataSize TYPE(64) 33" by code_simp+
  have r: "sizeof_T TYPE(64) * DataSize TYPE(64) 33 \<le> room \<lparr>sent = [7], room = 100, ofail = False\<rparr>"
    by code_simp
  have f: "\<not> ofail \<lparr>sent = [7], room = 100, ofail = False\<rparr>" by simp
  have w: "BinWrite 33 \<lparr>sent = [7], room = 100, ofail = False\<rparr> [12074683284807193060, 3 :: 64 word] =
     (True, \<lparr>sent = [7, 228, 145, 71, 30, 121, 228, 145, 167, 3, 0, 0, 0, 0, 0, 0, 0], room = 84, ofail = False\<rparr>)"
    by code_simp
  from serialization_round_trip[OF cxx64 l f r, of "[9]"] w
  show ?thesis by simp
qed

text \<open>
  C8. \<open>BinRead\<close> returns false exactly when the stream was not good before the call or
  holds fewer than \<open>sizeof(T) * DataSize\<close> bytes, which is exactly when the stream
  reports failure after the call; \<open>BinWrite\<close> returns false exactly when the stream
  reports failure after the call, that is when it had failed before or its sink cannot
  take the bytes. Both always return: the failure is the boolean result.
\<close>

theorem serialization_failure:
  fixes d :: "'a::len word list"
  shows "(fst (BinRead sz file d) = False \<longleftrightarrow>
            not_good file \<or> length (avail file) < sizeof_T TYPE('a) * DataSize TYPE('a) sz) \<and>
         (fst (BinRead sz file d) = False \<longleftrightarrow> not_good (fst (snd (BinRead sz file d)))) \<and>
         (fst (BinWrite sz out d) = False \<longleftrightarrow> ofail (snd (BinWrite sz out d))) \<and>
         (fst (BinWrite sz out d) = False \<longleftrightarrow>
            ofail out \<or> room out <
              length (take (sizeof_T TYPE('a) * DataSize TYPE('a) sz) (raw_bytes d)))"
  by (auto simp: BinRead_def BinWrite_def istream_read_def ostream_write_def Let_def split: if_splits prod.splits)


theorem serialization_failure_witness:
  "fst (BinRead 5 \<lparr>avail = [228], not_good = False\<rparr> [0, 0 :: 8 word]) = False \<and>
   BinRead 5 \<lparr>avail = [228], not_good = False\<rparr> [7, 9 :: 8 word] =
     (False, \<lparr>avail = [], not_good = True\<rparr>, [228, 9]) \<and>
   BinWrite 5 \<lparr>sent = [], room = 1, ofail = False\<rparr> [228, 1 :: 8 word] =
     (False, \<lparr>sent = [228], room = 0, ofail = True\<rparr>)"
proof -
  have c: "sizeof_T TYPE(8) * DataSize TYPE(8) 5 = 2" by code_simp
  have r: "BinRead 5 \<lparr>avail = [228], not_good = False\<rparr> [7, 9 :: 8 word] =
     (False, \<lparr>avail = [], not_good = True\<rparr>, [228, 9])" by code_simp
  have w: "BinWrite 5 \<lparr>sent = [], room = 1, ofail = False\<rparr> [228, 1 :: 8 word] =
     (False, \<lparr>sent = [228], room = 0, ofail = True\<rparr>)" by code_simp
  from serialization_failure[of 5 "\<lparr>avail = [228], not_good = False\<rparr>" "[0, 0 :: 8 word]"] c r w
  show ?thesis by simp
qed

section \<open>The padding invariant\<close>

text \<open>
  C1, as amended. For every word type and size, the padding groups (the two-bit
  groups of the array at positions from \<open>sz\<close> on) are all 0
  \<^item> in the default sequence;
  \<^item> in the sequence constructed from a string of length \<open>sz\<close> over A, C, G, T;
  \<^item> in the sequence the generic constructor builds from \<open>n \<le> sz\<close> symbols of a source
    whose element 0 is a code or a letter and whose symbols read are all in the
    encoding of element 0 (all codes 0..3, or all letters);
  \<^item> in the sequence constructed from a pre-packed buffer of \<open>DataSize\<close> words, for
    \<open>sz > 0\<close>;
  \<^item> in the shift-right of every sequence, whatever its padding;
  \<^item> in the shift-left of \<open>q\<close> exactly when the padding groups of \<open>q\<close> after position
    \<open>sz\<close> are 0, so whenever \<open>q\<close> has zero padding;
  \<^item> in the reverse complement of \<open>q\<close> exactly when \<open>q\<close> has zero padding.
  Here \<open>q\<close> is any array of \<open>DataSize\<close> words and \<open>c\<close> a code or a letter. The sentinel
  \<open>GetZero\<close> is all ones: its padding is zero only when there is no padding, that is
  when \<open>sz\<close> is a multiple of the number of symbols in a word.
\<close>

theorem padding_invariant:
  fixes q mem :: "'a::len word list"
  assumes "cxx_word TYPE('a)" and "length mem = DataSize TYPE('a) sz"
    and "length q = DataSize TYPE('a) sz" and "is_dignucl c \<or> is_nucl c"
  shows "padded sz (Seq_default sz :: 'a word list) \<and>
    (length s = sz \<and> (\<forall>x\<in>set s. is_nucl x) \<longrightarrow>
       (\<exists>d. init sz mem (s @ CHR 0x00 # rest) = Inr d \<and> padded sz d)) \<and>
    (n \<le> sz \<and>
     (case src 0 of
        None \<Rightarrow> False
      | Some s0 \<Rightarrow> (is_dignucl s0 \<or> is_nucl s0) \<and>
          (\<forall>i\<in>{0..<n}. case src (offset + i) of
                          None \<Rightarrow> False
                        | Some x \<Rightarrow> if is_dignucl s0 then is_dignucl x else is_nucl x)) \<longrightarrow>
       (\<exists>d. Seq_of_source sz mem src offset n = Inr d \<and> padded sz d)) \<and>
    (0 < sz \<and> DataSize TYPE('a) sz \<le> length data_array \<longrightarrow>
       (\<exists>d. Seq_of_array sz mem data_array = Inr d \<and> padded sz d)) \<and>
    (\<exists>d. op_shr sz q c = Inr d \<and> padded sz d) \<and>
    (padded sz (op_shl sz q c) \<longleftrightarrow>
       (\<forall>i. sz < i \<and> i < DataSize TYPE('a) sz * TNucl TYPE('a) \<longrightarrow> at q i = CHR 0x00)) \<and>
    (padded sz q \<longrightarrow> padded sz (op_shl sz q c)) \<and>
    (padded sz (op_not sz q) \<longleftrightarrow> padded sz q) \<and>
    (padded sz (GetZero sz :: 'a word list) \<longleftrightarrow> sz mod TNucl TYPE('a) = 0)"
proof -
  note cw = assms(1) and mem = assms(2) and lq = assms(3) and c = assms(4)
  have a1: "padded sz (Seq_default sz :: 'a word list)"
    using Seq_default_wf[OF cw, of sz] by (simp add: wf_seq_def)
  have a2: "\<exists>d. init sz mem (s @ CHR 0x00 # rest) = Inr d \<and> padded sz d"
    if "length s = sz \<and> (\<forall>x\<in>set s. is_nucl x)"
  proof -
    have "sz < length (s @ CHR 0x00 # rest)" "(s @ CHR 0x00 # rest) ! sz = CHR 0x00"
      using that by (simp_all add: nth_append)
    from init_wf[OF cw mem this] show ?thesis by (auto simp: wf_seq_def)
  qed
  have a3: "\<exists>d. Seq_of_source sz mem src offset n = Inr d \<and> padded sz d"
    if h: "n \<le> sz \<and>
     (case src 0 of
        None \<Rightarrow> False
      | Some s0 \<Rightarrow> (is_dignucl s0 \<or> is_nucl s0) \<and>
          (\<forall>i\<in>{0..<n}. case src (offset + i) of
                          None \<Rightarrow> False
                        | Some x \<Rightarrow> if is_dignucl s0 then is_dignucl x else is_nucl x))"
  proof -
    from h obtain s0 where s0: "src 0 = Some s0" "is_dignucl s0 \<or> is_nucl s0"
      and rd: "\<forall>i\<in>{0..<n}. case src (offset + i) of
                          None \<Rightarrow> False
                        | Some x \<Rightarrow> if is_dignucl s0 then is_dignucl x else is_nucl x"
      by (auto split: option.splits)
    have v: "\<forall>i < n. \<exists>x. src (offset + i) = Some x \<and> (is_dignucl s0 \<longrightarrow> is_dignucl x)"
    proof (intro allI impI)
      fix i assume "i < n"
      then have "case src (offset + i) of None \<Rightarrow> False
                 | Some x \<Rightarrow> if is_dignucl s0 then is_dignucl x else is_nucl x"
        using rd by simp
      then show "\<exists>x. src (offset + i) = Some x \<and> (is_dignucl s0 \<longrightarrow> is_dignucl x)"
        by (cases "src (offset + i)") auto
    qed
    from Seq_of_source_wf[OF cw mem s0 _ v] h show ?thesis by (auto simp: wf_seq_def)
  qed
  have a4: "\<exists>d. Seq_of_array sz mem data_array = Inr d \<and> padded sz d"
    if "0 < sz \<and> DataSize TYPE('a) sz \<le> length data_array"
    using Seq_of_array_wf[OF cw mem, of data_array] that by (auto simp: wf_seq_def)
  have a5: "\<exists>d. op_shr sz q c = Inr d \<and> padded sz d"
    using op_shr_wf[OF cw lq c] by (auto simp: wf_seq_def)
  note a6 = op_shl_padded_iff[OF cw lq c]
  have a7: "padded sz (op_shl sz q c)" if "padded sz q"
    unfolding a6 using that by (simp add: padded_def)
  note a8 = op_not_padded_iff[OF cw lq]
  note a9 = GetZero_padded[OF cw, of sz]
  from a1 a2 a3 a4 a5 a6 a7 a8 a9 show ?thesis by blast
qed

theorem padding_invariant_witness:
  "padded 5 (Seq_default 5 :: 8 word list) \<and>
   (\<exists>d. init 5 [7, 9 :: 8 word] (''ACGTC'' @ [CHR 0x00]) = Inr d \<and> padded 5 d) \<and>
   (\<exists>d. Seq_of_source 5 [7, 9 :: 8 word] (string_source ''TTACGTCAA'') 2 5 = Inr d \<and> padded 5 d) \<and>
   (\<exists>d. Seq_of_source 5 [7, 9 :: 8 word] (string_source []) 0 0 = Inr d \<and> padded 5 d) \<and>
   (\<exists>d. Seq_of_array 5 [7, 9 :: 8 word] [255, 255] = Inr d \<and> padded 5 d) \<and>
   (\<exists>d. op_shr 5 [255, 255 :: 8 word] (CHR 0x00) = Inr d \<and> padded 5 d) \<and>
   padded 5 (op_shl 5 [228, 1 :: 8 word] (CHR ''G'')) \<and>
   padded 5 (op_not 5 [228, 1 :: 8 word]) \<and>
   \<not> padded 5 (op_not 5 [255, 255 :: 8 word]) \<and>
   Seq_of_source 5 [7, 9 :: 8 word] (string_source ''TTACGTCAA'') 2 5 = Inr [228, 1] \<and>
   Seq_of_source 5 [7, 9 :: 8 word] (string_source []) 0 0 = Inr [0, 0] \<and>
   Seq_of_array 5 [7, 9 :: 8 word] [255, 255] = Inr [255, 3] \<and>
   op_shr 5 [255, 255 :: 8 word] (CHR 0x00) = Inr [252, 3]"
proof -
  have m: "length [7, 9 :: 8 word] = DataSize TYPE(8) 5"
    "length [228, 1 :: 8 word] = DataSize TYPE(8) 5"
    "length [255, 255 :: 8 word] = DataSize TYPE(8) 5" by code_simp+
  have w: "padded 5 [228, 1 :: 8 word]" "\<not> padded 5 [255, 255 :: 8 word]" by code_simp+
  have c: "is_dignucl (CHR ''G'') \<or> is_nucl (CHR ''G'')"
    "is_dignucl (CHR 0x00) \<or> is_nucl (CHR 0x00)" by code_simp+
  have h1: "length ''ACGTC'' = 5 \<and> (\<forall>x\<in>set ''ACGTC''. is_nucl x)" by (simp add: is_nucl_def)
  have h2: "(5::nat) \<le> 5 \<and>
     (case string_source ''TTACGTCAA'' 0 of
        None \<Rightarrow> False
      | Some s0 \<Rightarrow> (is_dignucl s0 \<or> is_nucl s0) \<and>
          (\<forall>i\<in>{0..<5}. case string_source ''TTACGTCAA'' (2 + i) of
                          None \<Rightarrow> False
                        | Some x \<Rightarrow> if is_dignucl s0 then is_dignucl x else is_nucl x))"
    by code_simp
  have h2': "(0::nat) \<le> 5 \<and>
     (case string_source [] 0 of
        None \<Rightarrow> False
      | Some s0 \<Rightarrow> (is_dignucl s0 \<or> is_nucl s0) \<and>
          (\<forall>i\<in>{0..<0}. case string_source [] (0 + i) of
                          None \<Rightarrow> False
                        | Some x \<Rightarrow> if is_dignucl s0 then is_dignucl x else is_nucl x))"
    by code_simp
  have h3: "(0::nat) < 5 \<and> DataSize TYPE(8) 5 \<le> length [255, 255 :: 8 word]" by code_simp
  have e: "Seq_of_array 5 [7, 9 :: 8 word] [255, 255] = Inr [255, 3]"
    "op_shr 5 [255, 255 :: 8 word] (CHR 0x00) = Inr [252, 3]"
    "Seq_of_source 5 [7, 9 :: 8 word] (string_source ''TTACGTCAA'') 2 5 = Inr [228, 1]"
    "Seq_of_source 5 [7, 9 :: 8 word] (string_source []) 0 0 = Inr [0, 0]" by code_simp+
  note t1 = padding_invariant[OF cxx8 m(1) m(2) c(1), where s = "''ACGTC''" and rest = "[]"
      and src = "string_source ''TTACGTCAA''" and offset = 2 and n = 5
      and data_array = "[255, 255]"]
  note t2 = padding_invariant[OF cxx8 m(1) m(3) c(2), where s = "''ACGTC''" and rest = "[]"
      and src = "string_source []" and offset = 0 and n = 0
      and data_array = "[255, 255]"]
  from t1 t2 h1 h2 h2' h3 e w show ?thesis by blast
qed

text \<open>
  The claim C1 as stated fails for \<open>GetZero\<close>: for size 5 and 8-bit words the storage is
  two bytes of ones, and the group at position 5 of the last byte is 3.
\<close>

theorem GetZero_padding_counterexample:
  "GetZero 5 = [255, 255 :: 8 word] \<and> at (GetZero 5 :: 8 word list) 5 = CHR 0x03 \<and>
   \<not> padded 5 (GetZero 5 :: 8 word list)"
  by code_simp

text \<open>
  The condition on the source of the generic constructor is needed: the constructor
  takes the encoding from element 0 alone and does not look at the symbols it reads.
  A source that starts with the code 1 and goes on with letters has the letters
  stored as they are, over their neighbours and the padding.
\<close>

lemma Seq_of_source_mixed_encoding:
  "Seq_of_source 5 [0, 0 :: 8 word] (string_source (CHR 0x01 # ''TTTTT'')) 1 5 = Inr [84, 84] \<and>
   \<not> padded 5 [84, 84 :: 8 word]"
  by code_simp

section \<open>Construction from a pre-packed buffer\<close>

text \<open>
  C2 fails on the code when the size is a multiple of the number of symbols in a word:
  then \<open>NuclsRemain\<close> is 0, the loop stops before the last cell and the masked copy of
  the last cell is skipped, so the last cell keeps the indeterminate content of the
  uninitialised array. For size 4 and 8-bit words the buffer holding ACGT gives back
  whatever the array held, here AAAA; the same for size 32 and 64-bit words. (For every
  other size the constructor does what the claim says: lemma \<open>Seq_of_array_symbols\<close>.)
\<close>

theorem Seq_of_array_full_last_cell:
  "NuclsRemain TYPE(8) 4 = 0 \<and>
   Seq_of_array 4 [0] [228 :: 8 word] = Inr [0] \<and>
   str 4 [228 :: 8 word] = ''ACGT'' \<and> str 4 [0 :: 8 word] = ''AAAA'' \<and>
   NuclsRemain TYPE(64) 32 = 0 \<and>
   Seq_of_array 32 [0] [12074683284807193060 :: 64 word] = Inr [0]"
  by code_simp

end
